theory Spec2Isabelle
  imports Complex_Main "HOL-Library.AList" "HOL-Library.Sublist"
begin

section \<open>JavaScript values used by the automaton\<close>

text \<open>
  The grid cells, coordinates and the grid size are JavaScript numbers that hold integers;
  they are modelled by \<open>int\<close>. Two further values can come out of the arithmetic and the
  array reads of the source: \<open>undefined\<close> (a read outside an array) and \<open>NaN\<close>
  (a remainder by zero, or a sum with \<open>undefined\<close>). Reading a property of
  \<open>undefined\<close> throws a \<open>TypeError\<close>.
\<close>

datatype jsval = Num int | Undefined | NaN

datatype error = TypeError

text \<open>JavaScript's \<open>a % b\<close> on integers: the remainder takes the sign of the dividend.\<close>

definition js_rem :: "int \<Rightarrow> int \<Rightarrow> jsval" where
  "js_rem a b = (if b = 0 then NaN else Num (sgn a * (\<bar>a\<bar> mod \<bar>b\<bar>)))"

text \<open>\<open>a + b\<close> on the values that occur: anything but two numbers gives \<open>NaN\<close>.\<close>

fun js_add :: "jsval \<Rightarrow> jsval \<Rightarrow> jsval" where
  "js_add (Num a) (Num b) = Num (a + b)"
| "js_add _ _ = NaN"

text \<open>\<open>xs[i]\<close> on an array: \<open>None\<close> stands for \<open>undefined\<close>.\<close>

fun js_index :: "'a list \<Rightarrow> jsval \<Rightarrow> 'a option" where
  "js_index xs (Num i) = (if 0 \<le> i \<and> i < int (length xs) then Some (xs ! nat i) else None)"
| "js_index xs _ = None"

text \<open>\<open>grid[y][x]\<close>: a missing row throws, a missing cell is \<open>undefined\<close>.\<close>

definition js_index2 :: "int list list \<Rightarrow> jsval \<Rightarrow> jsval \<Rightarrow> error + jsval" where
  "js_index2 grid y x =
     (case js_index grid y of
        None \<Rightarrow> Inl TypeError
      | Some row \<Rightarrow> (case js_index row x of None \<Rightarrow> Inr Undefined | Some c \<Rightarrow> Inr (Num c)))"

text \<open>Sequencing of computations that may throw.\<close>

fun bind_err :: "error + 'a \<Rightarrow> ('a \<Rightarrow> error + 'b) \<Rightarrow> error + 'b" where
  "bind_err (Inl e) f = Inl e"
| "bind_err (Inr v) f = f v"

text \<open>A \<open>for\<close> loop that builds an array, one element for each index, left to right.\<close>

fun for_collect :: "('i \<Rightarrow> error + 'a) \<Rightarrow> 'i list \<Rightarrow> error + 'a list" where
  "for_collect f [] = Inr []"
| "for_collect f (i # is) =
     bind_err (f i) (\<lambda>v. bind_err (for_collect f is) (\<lambda>vs. Inr (v # vs)))"

text \<open>A \<open>for\<close> loop that updates a state, one iteration for each index, left to right.\<close>

fun for_fold :: "('i \<Rightarrow> 's \<Rightarrow> error + 's) \<Rightarrow> 'i list \<Rightarrow> 's \<Rightarrow> error + 's" where
  "for_fold f [] s = Inr s"
| "for_fold f (i # is) s = bind_err (f i s) (for_fold f is)"

text \<open>The values of \<open>for (let i = 0; i < n; i++)\<close>.\<close>

definition upto_size :: "int \<Rightarrow> int list" where
  "upto_size n = map int [0..<nat n]"

section \<open>GameOfLife (gameOfLife.js)\<close>

record game =
  game_size :: int
  initialDensity :: real
  game_grid :: "int list list"

text \<open>
  \<open>reset\<close>: the draws of \<open>Math.random()\<close> are a parameter, \<open>rnd k\<close> being the
  \<open>k\<close>-th draw of the call; the cell \<open>(x, y)\<close> takes draw number \<open>y * size + x\<close>.
\<close>

definition reset_row :: "(nat \<Rightarrow> real) \<Rightarrow> real \<Rightarrow> nat \<Rightarrow> nat \<Rightarrow> int list" where
  "reset_row rnd density n y = map (\<lambda>x. if rnd (y * n + x) < density then 1 else 0) [0..<n]"

definition reset :: "(nat \<Rightarrow> real) \<Rightarrow> real \<Rightarrow> game \<Rightarrow> game" where
  "reset rnd density g =
     g\<lparr>game_grid := map (reset_row rnd density (nat (game_size g))) [0..<nat (game_size g)]\<rparr>"

definition constructor :: "(nat \<Rightarrow> real) \<Rightarrow> int \<Rightarrow> real \<Rightarrow> game" where
  "constructor rnd sz density =
     reset rnd density \<lparr>game_size = sz, initialDensity = density, game_grid = []\<rparr>"

text \<open>
  \<open>getCell\<close>: the sums \<open>x + this.size\<close> and \<open>y + this.size\<close> and their remainders are
  computed on integers; this is the value the source computes wherever the arguments and
  the sums are integers that a double holds exactly.
\<close>

definition getCell :: "game \<Rightarrow> int \<Rightarrow> int \<Rightarrow> error + jsval" where
  "getCell g x y =
     (let wrappedX = js_rem (x + game_size g) (game_size g);
          wrappedY = js_rem (y + game_size g) (game_size g)
      in js_index2 (game_grid g) wrappedY wrappedX)"

text \<open>The offsets \<open>(dx, dy)\<close> in the order of the two nested loops, the cell itself skipped.\<close>

definition neighbourOffsets :: "(int \<times> int) list" where
  "neighbourOffsets =
     filter (\<lambda>(dx, dy). \<not> (dx = 0 \<and> dy = 0))
       (concat (map (\<lambda>dy. map (\<lambda>dx. (dx, dy)) [-1, 0, 1]) [-1, 0, 1]))"

fun countLoop :: "game \<Rightarrow> int \<Rightarrow> int \<Rightarrow> jsval \<Rightarrow> (int \<times> int) list \<Rightarrow> error + jsval" where
  "countLoop g x y count [] = Inr count"
| "countLoop g x y count ((dx, dy) # rest) =
     bind_err (getCell g (x + dx) (y + dy)) (\<lambda>c. countLoop g x y (js_add count c) rest)"

definition countNeighbors :: "game \<Rightarrow> int \<Rightarrow> int \<Rightarrow> error + jsval" where
  "countNeighbors g x y = countLoop g x y (Num 0) neighbourOffsets"

definition nextCell :: "game \<Rightarrow> int \<Rightarrow> int \<Rightarrow> error + int" where
  "nextCell g y x =
     bind_err (getCell g x y) (\<lambda>cell.
     bind_err (countNeighbors g x y) (\<lambda>neighbors.
       if cell = Num 1
       then Inr (if neighbors = Num 2 \<or> neighbors = Num 3 then 1 else 0)
       else Inr (if neighbors = Num 3 then 1 else 0)))"

text \<open>
  \<open>computeNextGeneration\<close> returns the new grid, or the error thrown; the second component
  is the game object after the call.
\<close>

definition computeNextGeneration :: "game \<Rightarrow> (error + int list list) \<times> game" where
  "computeNextGeneration g =
     (for_collect (\<lambda>y. for_collect (nextCell g y) (upto_size (game_size g)))
        (upto_size (game_size g)), g)"

record changedCell =
  cc_x :: int
  cc_y :: int
  cc_state :: jsval

text \<open>
  The body of the inner loop of \<open>getChangedCells\<close>: \<open>changedCells\<close> after the
  iteration for \<open>(x, y)\<close>.
\<close>

definition changedAt ::
  "int list list \<Rightarrow> int list list \<Rightarrow> int \<Rightarrow> int \<Rightarrow> changedCell list \<Rightarrow> error + changedCell list" where
  "changedAt oldGrid newGrid y x changedCells =
     bind_err (js_index2 oldGrid (Num y) (Num x)) (\<lambda>old.
     bind_err (js_index2 newGrid (Num y) (Num x)) (\<lambda>new.
       if old \<noteq> new then Inr (changedCells @ [\<lparr>cc_x = x, cc_y = y, cc_state = new\<rparr>])
       else Inr changedCells))"

definition getChangedCells :: "game \<Rightarrow> int list list \<Rightarrow> int list list \<Rightarrow> error + changedCell list" where
  "getChangedCells g oldGrid newGrid =
     for_fold (\<lambda>y. for_fold (changedAt oldGrid newGrid y) (upto_size (game_size g)))
       (upto_size (game_size g)) []"

section \<open>Well-formed grids and the specification's notions\<close>

text \<open>An \<open>N\<times>N\<close> grid: \<open>N\<close> rows of \<open>N\<close> cells.\<close>

definition square_grid :: "nat \<Rightarrow> int list list \<Rightarrow> bool" where
  "square_grid N grid \<longleftrightarrow> length grid = N \<and> (\<forall>row \<in> set grid. length row = N)"

text \<open>A game whose size is \<open>N \<ge> 1\<close> and whose grid is \<open>N\<times>N\<close> with cells 0 or 1.\<close>

definition wf_game :: "nat \<Rightarrow> game \<Rightarrow> bool" where
  "wf_game N g \<longleftrightarrow>
     1 \<le> N \<and> game_size g = int N \<and> length (game_grid g) = N \<and>
     (\<forall>row \<in> set (game_grid g). length row = N \<and> (\<forall>c \<in> set row. c = 0 \<or> c = 1))"

text \<open>The cell at the toroidally wrapped coordinates \<open>(x mod N, y mod N)\<close>.\<close>

definition torus_cell :: "int list list \<Rightarrow> nat \<Rightarrow> int \<Rightarrow> int \<Rightarrow> int" where
  "torus_cell grid N x y = grid ! nat (y mod int N) ! nat (x mod int N)"

text \<open>
  The specification's live-neighbour count: the number of the 8 surrounding offsets whose
  toroidally wrapped cell is alive.
\<close>

definition liveNeighborCount_spec :: "int list list \<Rightarrow> nat \<Rightarrow> int \<Rightarrow> int \<Rightarrow> nat" where
  "liveNeighborCount_spec grid N x y =
     length (filter (\<lambda>(dx, dy). torus_cell grid N (x + dx) (y + dy) = 1)
       [(-1, -1), (0, -1), (1, -1), (-1, 0), (1, 0), (-1, 1), (0, 1), (1, 1)])"

text \<open>Conway's rule as the specification words it.\<close>

definition conway_rule :: "int \<Rightarrow> nat \<Rightarrow> int" where
  "conway_rule cell n = (if (cell = 1 \<and> (n = 2 \<or> n = 3)) \<or> (cell \<noteq> 1 \<and> n = 3) then 1 else 0)"

text \<open>
  The specification's diff: the coordinates at which two \<open>N\<times>N\<close> grids differ, row by
  row, each with the new grid's value.
\<close>

definition diff_spec :: "nat \<Rightarrow> int list list \<Rightarrow> int list list \<Rightarrow> changedCell list" where
  "diff_spec N oldGrid newGrid =
     map (\<lambda>(y, x). \<lparr>cc_x = int x, cc_y = int y, cc_state = Num (newGrid ! y ! x)\<rparr>)
       (filter (\<lambda>(y, x). oldGrid ! y ! x \<noteq> newGrid ! y ! x) (List.product [0..<N] [0..<N]))"

text \<open>
  The integers that a JavaScript number holds exactly (\<open>Number.isSafeInteger\<close>). The
  source computes in IEEE doubles, the model in \<open>int\<close>: a sum of two safe integers that
  is a safe integer is computed exactly by the source, and so is every remainder of safe
  integers. Beyond this range the source rounds and the model does not follow it.
\<close>

definition safe_integer :: "int \<Rightarrow> bool" where
  "safe_integer i \<longleftrightarrow> - (2 ^ 53 - 1) \<le> i \<and> i \<le> 2 ^ 53 - 1"

section \<open>BlobVisualizer (blobVisualizer.js): data\<close>

text \<open>
  The template literal \<open>`${x},${y}`\<close>: the decimal numerals of two numbers with a comma
  between them.
\<close>

definition digit_char :: "nat \<Rightarrow> char" where
  "digit_char d = ''0123456789'' ! d"

function nat_digits :: "nat \<Rightarrow> string" where
  "nat_digits n = (if n < 10 then [digit_char n] else nat_digits (n div 10) @ [digit_char (n mod 10)])"
  by pat_completeness auto
termination
  by (relation "measure (\<lambda>n. n)") auto

declare nat_digits.simps [simp del]

fun js_string :: "jsval \<Rightarrow> string" where
  "js_string (Num i) = (if i < 0 then CHR ''-'' # nat_digits (nat (- i)) else nat_digits (nat i))"
| "js_string Undefined = ''undefined''"
| "js_string NaN = ''NaN''"

definition key :: "jsval \<Rightarrow> jsval \<Rightarrow> string" where
  "key x y = js_string x @ CHR '','' # js_string y"

text \<open>
  A blob is an object with an identity: the arrays, \<open>blobsMap\<close>, the organisms and the
  pending changes all hold references to the same objects, and \<open>organismId\<close>, \<open>isNew\<close> and
  \<open>mesh.visible\<close> are written through them. The objects live in a store, a reference
  being an index into it; \<open>createBlob\<close> appends a new object. Of a blob, the fields the
  bookkeeping reads and writes are kept (\<open>visible\<close> is \<open>mesh.visible\<close>); the radius, the
  world position, the scale and the scene graph are rendering only.
\<close>

type_synonym ref = nat

record blob =
  blob_x :: int
  blob_y :: int
  organismId :: int
  isNew :: bool
  visible :: bool

text \<open>An organism; its colour is kept as the index \<open>id % 6\<close> into the palette of six.\<close>

record organism =
  org_id :: int
  org_blobs :: "ref list"
  org_color :: jsval

record changes =
  appearingCells :: "(int \<times> int) list"
  disappearingCells :: "(int \<times> int) list"
  persistentCells :: "(int \<times> int) list"
  newBlobs :: "ref list"
  blobsToRemove :: "ref list"

text \<open>
  The visualizer object. \<open>game\<close> is the game object it shares with the application;
  \<open>blobsMap\<close> is a JavaScript object used as a string-keyed table: an association list in
  insertion order, read with \<open>map_of\<close>.
\<close>

record visualizer =
  game :: game
  store :: "blob list"
  blobs :: "ref list"
  blobsMap :: "(string \<times> ref) list"
  organismGroups :: "organism list"
  pendingChanges :: "changes option"
  isAnimating :: bool

definition blobKey :: "blob list \<Rightarrow> ref \<Rightarrow> string" where
  "blobKey st b = key (Num (blob_x (st ! b))) (Num (blob_y (st ! b)))"

definition createBlob :: "int \<Rightarrow> int \<Rightarrow> bool \<Rightarrow> blob list \<Rightarrow> ref \<times> blob list" where
  "createBlob x y vis st =
     (length st,
      st @ [\<lparr>blob_x = x, blob_y = y, organismId = - 1, isNew = \<not> vis, visible = vis\<rparr>])"

section \<open>BlobVisualizer: identifyOrganismGroups\<close>

text \<open>The key of the neighbour of \<open>(x, y)\<close> at the offset \<open>(dx, dy)\<close>.\<close>

definition neighborKey :: "int \<Rightarrow> int \<Rightarrow> int \<Rightarrow> int \<times> int \<Rightarrow> string" where
  "neighborKey sz x y d =
     (case d of (dx, dy) \<Rightarrow> key (js_rem (x + dx + sz) sz) (js_rem (y + dy + sz) sz))"

text \<open>
  The body of the two neighbour loops for one offset, on the queue and the visited keys.
\<close>

definition checkNeighbor ::
  "int \<Rightarrow> (string \<times> ref) list \<Rightarrow> int \<Rightarrow> int \<Rightarrow> ref list \<times> string set \<Rightarrow> int \<times> int
     \<Rightarrow> ref list \<times> string set" where
  "checkNeighbor sz bm x y qv d =
     (case qv of (queue, visited) \<Rightarrow>
        (case map_of bm (neighborKey sz x y d) of
           Some nb \<Rightarrow>
             if neighborKey sz x y d \<notin> visited
             then (queue @ [nb], insert (neighborKey sz x y d) visited)
             else (queue, visited)
         | None \<Rightarrow> (queue, visited)))"

lemma checkNeighbor_measure:
  "length (fst (checkNeighbor sz bm x y (q, V) d)) + card (fst ` set bm - snd (checkNeighbor sz bm x y (q, V) d))
     = length q + card (fst ` set bm - V)"
proof (cases "map_of bm (neighborKey sz x y d)")
  case None
  then show ?thesis by (simp add: checkNeighbor_def)
next
  case (Some nb)
  show ?thesis
  proof (cases "neighborKey sz x y d \<in> V")
    case True
    then show ?thesis using Some by (simp add: checkNeighbor_def)
  next
    case False
    have "neighborKey sz x y d \<in> fst ` set bm"
      using Some by (metis domI dom_map_of_conv_image_fst)
    then have "neighborKey sz x y d \<in> fst ` set bm - V" using False by simp
    moreover have "fst ` set bm - insert (neighborKey sz x y d) V
        = (fst ` set bm - V) - {neighborKey sz x y d}" by auto
    moreover have "finite (fst ` set bm - V)" by simp
    ultimately have "card (fst ` set bm - insert (neighborKey sz x y d) V) + 1
        = card (fst ` set bm - V)"
      by (metis Suc_eq_plus1 card_Suc_Diff1)
    then show ?thesis using Some False by (simp add: checkNeighbor_def)
  qed
qed

lemma checkNeighbors_measure:
  "length (fst (foldl (checkNeighbor sz bm x y) qv ds)) + card (fst ` set bm - snd (foldl (checkNeighbor sz bm x y) qv ds))
     = length (fst qv) + card (fst ` set bm - snd qv)"
proof (induction ds arbitrary: qv)
  case Nil
  show ?case by simp
next
  case (Cons d ds)
  show ?case
    using Cons.IH[of "checkNeighbor sz bm x y qv d"] checkNeighbor_measure[of sz bm x y "fst qv" "snd qv" d]
    by simp
qed

text \<open>
  The \<open>while (queue.length > 0)\<close> loop of the breadth-first search, on the queue, the
  visited keys, the organism's blobs and the store. It ends because every blob enqueued
  marks a key of \<open>blobsMap\<close> that was not yet visited.
\<close>

function bfs ::
  "int \<Rightarrow> (string \<times> ref) list \<Rightarrow> int \<Rightarrow> ref list \<Rightarrow> string set \<Rightarrow> ref list \<Rightarrow> blob list
     \<Rightarrow> string set \<times> ref list \<times> blob list" where
  "bfs sz bm oid [] visited members st = (visited, members, st)"
| "bfs sz bm oid (currentBlob # rest) visited members st =
     (let members' = members @ [currentBlob];
          st' = st[currentBlob := (st ! currentBlob)\<lparr>organismId := oid\<rparr>];
          qv = foldl (checkNeighbor sz bm (blob_x (st' ! currentBlob)) (blob_y (st' ! currentBlob)))
                 (rest, visited) neighbourOffsets
      in bfs sz bm oid (fst qv) (snd qv) members' st')"
  by pat_completeness auto
termination
proof (relation "measure (\<lambda>(sz, bm, oid, queue, visited, members, st).
                   length queue + card (fst ` set bm - visited))", goal_cases)
  case 1
  show ?case by simp
next
  case (2 sz bm oid currentBlob rest visited members st members' st' qv)
  then show ?case
    using checkNeighbors_measure[of sz bm "blob_x (st' ! currentBlob)" "blob_y (st' ! currentBlob)"
        "(rest, visited)" neighbourOffsets]
    by simp
qed

text \<open>
  The \<open>forEach\<close> over \<open>this.blobs\<close>, on the next organism id, the visited keys, the
  organisms found and the store.
\<close>

fun organismsLoop ::
  "int \<Rightarrow> (string \<times> ref) list \<Rightarrow> ref list \<Rightarrow> int \<times> string set \<times> organism list \<times> blob list
     \<Rightarrow> int \<times> string set \<times> organism list \<times> blob list" where
  "organismsLoop sz bm [] acc = acc"
| "organismsLoop sz bm (b # rest) (currentOrganismId, visited, groups, st) =
     (if blobKey st b \<in> visited
      then organismsLoop sz bm rest (currentOrganismId, visited, groups, st)
      else (case bfs sz bm currentOrganismId [b] (insert (blobKey st b) visited) [] st of
              (visited', members, st') \<Rightarrow>
                organismsLoop sz bm rest
                  (currentOrganismId + 1, visited',
                   groups @ [\<lparr>org_id = currentOrganismId, org_blobs = members,
                              org_color = js_rem currentOrganismId 6\<rparr>],
                   st')))"

definition identifyOrganismGroups :: "visualizer \<Rightarrow> visualizer" where
  "identifyOrganismGroups v =
     (case organismsLoop (game_size (game v)) (blobsMap v) (blobs v) (0, {}, [], store v) of
        (currentOrganismId, visited, groups, st) \<Rightarrow> v\<lparr>store := st, organismGroups := groups\<rparr>)"

section \<open>BlobVisualizer: construction and reset\<close>

text \<open>The body of the inner loop of \<open>createBlobs\<close>, on the visualizer.\<close>

definition createBlobAt :: "int list list \<Rightarrow> int \<Rightarrow> int \<Rightarrow> visualizer \<Rightarrow> error + visualizer" where
  "createBlobAt grid y x v =
     bind_err (js_index2 grid (Num y) (Num x)) (\<lambda>c.
       if c = Num 1
       then (case createBlob x y True (store v) of
               (b, st) \<Rightarrow> Inr (v\<lparr>store := st, blobs := blobs v @ [b],
                                 blobsMap := AList.update (key (Num x) (Num y)) b (blobsMap v)\<rparr>))
       else Inr v)"

definition createBlobs :: "visualizer \<Rightarrow> error + visualizer" where
  "createBlobs v =
     bind_err
       (for_fold (\<lambda>y. for_fold (createBlobAt (game_grid (game v)) y) (upto_size (game_size (game v))))
          (upto_size (game_size (game v))) (v\<lparr>blobs := [], blobsMap := []\<rparr>))
       (\<lambda>v'. Inr (identifyOrganismGroups v'))"

definition resetBlobs :: "visualizer \<Rightarrow> error + visualizer" where
  "resetBlobs v =
     createBlobs (v\<lparr>blobs := [], blobsMap := [], organismGroups := [],
                    pendingChanges := None, isAnimating := False\<rparr>)"

text \<open>The constructor of the visualizer, for a game.\<close>

definition newVisualizer :: "game \<Rightarrow> error + visualizer" where
  "newVisualizer g =
     createBlobs \<lparr>game = g, store = [], blobs = [], blobsMap = [], organismGroups = [],
                  pendingChanges = None, isAnimating = False\<rparr>"

section \<open>BlobVisualizer: the generation transition\<close>

definition noChanges :: changes where
  "noChanges = \<lparr>appearingCells = [], disappearingCells = [], persistentCells = [],
                 newBlobs = [], blobsToRemove = []\<rparr>"

text \<open>
  The body of the inner loop of \<open>prepareNextGeneration\<close>, on the changes and the store.
  The \<open>&&\<close> of the source reads \<open>nextGrid[y][x]\<close> only where \<open>currentGrid[y][x]\<close> is 0 or 1.
\<close>

definition prepareCell ::
  "int list list \<Rightarrow> int list list \<Rightarrow> (string \<times> ref) list \<Rightarrow> int \<Rightarrow> int \<Rightarrow> changes \<times> blob list
     \<Rightarrow> error + changes \<times> blob list" where
  "prepareCell currentGrid nextGrid bm y x cs =
     (case cs of (ch, st) \<Rightarrow>
        bind_err (js_index2 currentGrid (Num y) (Num x)) (\<lambda>cur.
          if cur = Num 0 then
            bind_err (js_index2 nextGrid (Num y) (Num x)) (\<lambda>nxt.
              if nxt = Num 1
              then (case createBlob x y False st of
                      (newBlob, st') \<Rightarrow>
                        Inr (ch\<lparr>appearingCells := appearingCells ch @ [(x, y)],
                                newBlobs := newBlobs ch @ [newBlob]\<rparr>, st'))
              else Inr (ch, st))
          else if cur = Num 1 then
            bind_err (js_index2 nextGrid (Num y) (Num x)) (\<lambda>nxt.
              if nxt = Num 0
              then Inr (ch\<lparr>disappearingCells := disappearingCells ch @ [(x, y)],
                            blobsToRemove :=
                              (case map_of bm (key (Num x) (Num y)) of
                                 Some blobToRemove \<Rightarrow> blobsToRemove ch @ [blobToRemove]
                               | None \<Rightarrow> blobsToRemove ch)\<rparr>, st)
              else if nxt = Num 1
              then Inr (ch\<lparr>persistentCells := persistentCells ch @ [(x, y)]\<rparr>, st)
              else Inr (ch, st))
          else Inr (ch, st)))"

text \<open>\<open>prepareNextGeneration\<close>: the value returned and the visualizer after the call.\<close>

definition prepareNextGeneration ::
  "visualizer \<Rightarrow> int list list \<Rightarrow> int list list \<Rightarrow> error + bool \<times> visualizer" where
  "prepareNextGeneration v currentGrid nextGrid =
     (if isAnimating v then Inr (False, v)
      else bind_err
             (for_fold (\<lambda>y. for_fold (prepareCell currentGrid nextGrid (blobsMap v) y)
                               (upto_size (game_size (game v))))
                (upto_size (game_size (game v))) (noChanges, store v))
             (\<lambda>cs. case cs of (ch, st) \<Rightarrow> Inr (True, v\<lparr>store := st, pendingChanges := Some ch\<rparr>)))"

text \<open>
  The promise chain of \<open>animateNextGeneration\<close>. \<open>Promise.all(ps).then(k)\<close> is a join: it
  awaits the completion of the tweens started (their number is kept) and then runs the
  continuation \<open>k\<close>, in a later turn of the event loop also when there is no tween to
  await. The first continuation holds the \<open>changes\<close> object it closed over.
\<close>

datatype continuation = AfterShrink changes | AfterGrow

datatype join = Join nat continuation

text \<open>
  \<open>animateNextGeneration\<close>, the synchronous part: the value returned, the visualizer after
  the call and the join registered (the shrink tweens of the dying blobs).
\<close>

definition animateNextGeneration :: "visualizer \<Rightarrow> bool \<times> visualizer \<times> join option" where
  "animateNextGeneration v =
     (case pendingChanges v of
        None \<Rightarrow> (False, v, None)
      | Some ch \<Rightarrow>
          if isAnimating v then (False, v, None)
          else (True, v\<lparr>isAnimating := True\<rparr>,
                Some (Join (length (blobsToRemove ch)) (AfterShrink ch))))"

text \<open>The first continuation, step by step: the dying blobs leave the collections.\<close>

definition removeBlob :: "visualizer \<Rightarrow> ref \<Rightarrow> visualizer" where
  "removeBlob v b =
     v\<lparr>blobsMap := AList.delete (blobKey (store v) b) (blobsMap v),
       blobs := filter (\<lambda>b'. b' \<noteq> b) (blobs v)\<rparr>"

text \<open>The new blobs enter the collections.\<close>

definition addBlob :: "visualizer \<Rightarrow> ref \<Rightarrow> visualizer" where
  "addBlob v b =
     v\<lparr>blobsMap := AList.update (blobKey (store v) b) b (blobsMap v),
       blobs := blobs v @ [b]\<rparr>"

text \<open>The collections as \<open>identifyOrganismGroups\<close> finds them in the first continuation.\<close>

definition updateCollections :: "changes \<Rightarrow> visualizer \<Rightarrow> visualizer" where
  "updateCollections ch v = foldl addBlob (foldl removeBlob v (blobsToRemove ch)) (newBlobs ch)"

text \<open>The start of the grow phase: every new blob is made visible.\<close>

definition showBlob :: "visualizer \<Rightarrow> ref \<Rightarrow> visualizer" where
  "showBlob v b = v\<lparr>store := (store v)[b := (store v ! b)\<lparr>visible := True\<rparr>]\<rparr>"

definition startGrow :: "changes \<Rightarrow> visualizer \<Rightarrow> visualizer" where
  "startGrow ch v = foldl showBlob v (newBlobs ch)"

text \<open>
  The first continuation (after the shrink join): the visualizer after it and the join
  registered (the grow tweens of the new blobs). \<open>createMetaballOrganisms\<close>, between the
  regrouping and the grow phase, touches the rendering only.
\<close>

definition afterShrink :: "changes \<Rightarrow> visualizer \<Rightarrow> visualizer \<times> join" where
  "afterShrink ch v =
     (startGrow ch (identifyOrganismGroups (updateCollections ch v)),
      Join (length (newBlobs ch)) AfterGrow)"

text \<open>The second continuation (after the grow join).\<close>

definition clearNew :: "visualizer \<Rightarrow> ref \<Rightarrow> visualizer" where
  "clearNew v b = v\<lparr>store := (store v)[b := (store v ! b)\<lparr>isNew := False\<rparr>]\<rparr>"

definition afterGrow :: "visualizer \<Rightarrow> visualizer" where
  "afterGrow v = (foldl clearNew v (blobs v))\<lparr>pendingChanges := None, isAnimating := False\<rparr>"

text \<open>Running a continuation once its join is complete; \<open>None\<close> when the chain is over.\<close>

fun runContinuation :: "continuation \<Rightarrow> visualizer \<Rightarrow> visualizer \<times> join option" where
  "runContinuation (AfterShrink ch) v = (case afterShrink ch v of (v', j) \<Rightarrow> (v', Some j))"
| "runContinuation AfterGrow v = (afterGrow v, None)"

text \<open>\<open>updateBlobs\<close>: prepare, and animate if the preparation was accepted.\<close>

definition updateBlobs ::
  "visualizer \<Rightarrow> int list list \<Rightarrow> int list list \<Rightarrow> error + bool \<times> visualizer \<times> join option" where
  "updateBlobs v currentGrid nextGrid =
     bind_err (prepareNextGeneration v currentGrid nextGrid) (\<lambda>r.
       case r of (accepted, v') \<Rightarrow>
         if accepted
         then (case animateNextGeneration v' of (a, v'', j) \<Rightarrow> Inr (True, v'', j))
         else Inr (False, v', None))"

text \<open>
  \<open>step\<close> of the application (the second file of \<open>blobVisualizer.js\<close>'s bundle): the next
  grid is computed, handed to \<open>updateBlobs\<close> whose result is dropped, and made the game's
  grid.
\<close>

definition step :: "visualizer \<Rightarrow> error + visualizer \<times> join option" where
  "step v =
     (case computeNextGeneration (game v) of
        (r, g) \<Rightarrow>
          bind_err r (\<lambda>nextGrid.
          bind_err (updateBlobs (v\<lparr>game := g\<rparr>) (game_grid g) nextGrid) (\<lambda>u.
            case u of (accepted, v', j) \<Rightarrow>
              Inr (v'\<lparr>game := (game v')\<lparr>game_grid := nextGrid\<rparr>\<rparr>, j))))"

section \<open>Notions for the clustering\<close>

text \<open>
  Two stores hold the same blobs when they differ in \<open>organismId\<close> at most: the search
  writes no other field.
\<close>

definition sameBlobs :: "blob list \<Rightarrow> blob list \<Rightarrow> bool" where
  "sameBlobs st st' \<longleftrightarrow>
     length st' = length st \<and>
     (\<forall>i. blob_x (st' ! i) = blob_x (st ! i) \<and> blob_y (st' ! i) = blob_y (st ! i) \<and>
          isNew (st' ! i) = isNew (st ! i) \<and> visible (st' ! i) = visible (st ! i))"

text \<open>
  Two stores hold blobs on the same cells when they agree on the coordinates of every
  object: the fields \<open>organismId\<close>, \<open>isNew\<close> and \<open>mesh.visible\<close> may differ.
\<close>

definition sameCells :: "blob list \<Rightarrow> blob list \<Rightarrow> bool" where
  "sameCells st st' \<longleftrightarrow>
     (\<forall>i. blob_x (st' ! i) = blob_x (st ! i) \<and> blob_y (st' ! i) = blob_y (st ! i))"

text \<open>Every entry of \<open>blobsMap\<close> is a blob of the array under the key of its coordinates.\<close>

definition soundMap :: "(string \<times> ref) list \<Rightarrow> blob list \<Rightarrow> ref list \<Rightarrow> bool" where
  "soundMap bm st bs \<longleftrightarrow> (\<forall>k b. map_of bm k = Some b \<longrightarrow> b \<in> set bs \<and> k = blobKey st b)"

text \<open>
  A set of blobs is closed when the key of every neighbour cell that holds a blob (in
  \<open>blobsMap\<close>) is among the keys \<open>V\<close>.
\<close>

definition closedUnder :: "int \<Rightarrow> (string \<times> ref) list \<Rightarrow> blob list \<Rightarrow> ref set \<Rightarrow> string set \<Rightarrow> bool" where
  "closedUnder sz bm st P V \<longleftrightarrow>
     (\<forall>a \<in> P. \<forall>d \<in> set neighbourOffsets. \<forall>nb.
        map_of bm (neighborKey sz (blob_x (st ! a)) (blob_y (st ! a)) d) = Some nb
          \<longrightarrow> neighborKey sz (blob_x (st ! a)) (blob_y (st ! a)) d \<in> V)"

text \<open>All the blobs of a list of organisms, organism by organism.\<close>

definition members :: "organism list \<Rightarrow> ref list" where
  "members gs = concat (map org_blobs gs)"

text \<open>
  The invariant of the \<open>forEach\<close> of \<open>identifyOrganismGroups\<close>, the blobs \<open>seen\<close> having
  been iterated: ids count up from 0; the organisms found hold distinct blobs of the array,
  whose keys are the visited ones; every initial segment of the organisms is closed; every
  blob seen is in an organism; the store records each blob's organism; the first blobs of
  the organisms were met in the array's order.
\<close>

definition orgInv ::
  "int \<Rightarrow> (string \<times> ref) list \<Rightarrow> blob list \<Rightarrow> ref list \<Rightarrow> ref list
     \<Rightarrow> int \<times> string set \<times> organism list \<times> blob list \<Rightarrow> bool" where
  "orgInv sz bm st0 bs seen acc \<longleftrightarrow>
     (case acc of (oid, V, gs, st) \<Rightarrow>
        sameBlobs st0 st \<and> oid = int (length gs) \<and> map org_id gs = map int [0..<length gs] \<and>
        distinct (map (blobKey st0) (members gs)) \<and> V = blobKey st0 ` set (members gs) \<and>
        set (members gs) \<subseteq> set bs \<and> (\<forall>g \<in> set gs. org_blobs g \<noteq> []) \<and>
        (\<forall>n \<le> length gs. closedUnder sz bm st0 (set (members (take n gs)))
                             (blobKey st0 ` set (members (take n gs)))) \<and>
        set seen \<subseteq> set (members gs) \<and>
        (\<forall>i < length gs. \<forall>b \<in> set (org_blobs (gs ! i)). organismId (st ! b) = int i) \<and>
        subseq (map (\<lambda>g. hd (org_blobs g)) gs) seen)"

text \<open>The cell of a blob.\<close>

definition blobCell :: "blob list \<Rightarrow> ref \<Rightarrow> int \<times> int" where
  "blobCell st b = (blob_x (st ! b), blob_y (st ! b))"

text \<open>
  A visualizer that shows a set of live cells of an \<open>N\<times>N\<close> grid, \<open>N \<ge> 1\<close>: the blobs of
  the array are distinct allocated objects on cells of the grid, \<open>blobsMap\<close> maps the key of
  each to it, and holds nothing else.
\<close>

definition bookkeeping_ok :: "nat \<Rightarrow> visualizer \<Rightarrow> bool" where
  "bookkeeping_ok N v \<longleftrightarrow>
     1 \<le> N \<and> game_size (game v) = int N \<and> distinct (blobs v) \<and>
     (\<forall>b \<in> set (blobs v).
        b < length (store v) \<and>
        0 \<le> blob_x (store v ! b) \<and> blob_x (store v ! b) < int N \<and>
        0 \<le> blob_y (store v ! b) \<and> blob_y (store v ! b) < int N \<and>
        map_of (blobsMap v) (blobKey (store v) b) = Some b) \<and>
     (\<forall>p \<in> set (blobsMap v). snd p \<in> set (blobs v) \<and> fst p = blobKey (store v) (snd p))"

text \<open>
  The specification's adjacency: two different cells whose coordinates differ by at most 1
  modulo \<open>N\<close> in each axis.
\<close>

definition torus_adjacent :: "nat \<Rightarrow> int \<times> int \<Rightarrow> int \<times> int \<Rightarrow> bool" where
  "torus_adjacent N p q \<longleftrightarrow>
     p \<noteq> q \<and>
     (\<exists>dx \<in> {- 1, 0, 1}. (fst p + dx) mod int N = fst q) \<and>
     (\<exists>dy \<in> {- 1, 0, 1}. (snd p + dy) mod int N = snd q)"

section \<open>Notions for the preparation of a transition\<close>

text \<open>
  What the loops of \<open>prepareNextGeneration\<close> keep true of the changes \<open>ch\<close> and the store
  \<open>st'\<close> after the cells \<open>ps\<close> (pairs \<open>(y, x)\<close>), from the store \<open>st\<close> and the table
  \<open>bm\<close>: the store has only grown; the new blobs are exactly the objects allocated since,
  invisible, on different cells among \<open>ps\<close>; the blobs to remove are entries of the table.
\<close>

definition prepInv ::
  "blob list \<Rightarrow> (string \<times> ref) list \<Rightarrow> (int \<times> int) list \<Rightarrow> changes \<Rightarrow> blob list \<Rightarrow> bool" where
  "prepInv st bm ps ch st' \<longleftrightarrow>
     length st \<le> length st' \<and> take (length st) st' = st \<and>
     newBlobs ch = [length st..<length st'] \<and>
     (\<forall>b \<in> set (newBlobs ch).
        \<not> visible (st' ! b) \<and> (blob_y (st' ! b), blob_x (st' ! b)) \<in> set ps) \<and>
     distinct (map (blobCell st') (newBlobs ch)) \<and>
     (\<forall>b \<in> set (blobsToRemove ch). \<exists>k. map_of bm k = Some b)"

section \<open>Notions for the construction of the blobs\<close>

text \<open>
  What the loops of \<open>createBlobs\<close> keep true of the visualizer \<open>v\<close> after the cells \<open>ps\<close>
  (pairs \<open>(y, x)\<close>), from the visualizer \<open>v0\<close>: only the store and the two collections
  have changed; the store has only grown; the blobs array holds exactly the objects
  allocated since, \<open>blobsMap\<close> holds exactly them under their keys, and they sit on
  different cells, the live cells among \<open>ps\<close>.
\<close>

definition createInv :: "int list list \<Rightarrow> visualizer \<Rightarrow> (int \<times> int) list \<Rightarrow> visualizer \<Rightarrow> bool" where
  "createInv grid v0 ps v \<longleftrightarrow>
     game v = game v0 \<and> organismGroups v = organismGroups v0 \<and>
     pendingChanges v = pendingChanges v0 \<and> isAnimating v = isAnimating v0 \<and>
     length (store v0) \<le> length (store v) \<and>
     blobs v = [length (store v0)..<length (store v)] \<and>
     blobsMap v = map (\<lambda>b. (blobKey (store v) b, b)) (blobs v) \<and>
     distinct (map (blobCell (store v)) (blobs v)) \<and>
     blobCell (store v) ` set (blobs v) = {(x, y). (y, x) \<in> set ps \<and> grid ! nat y ! nat x = 1}"

section \<open>Example states\<close>

text \<open>A \<open>1\<times>1\<close> game whose only cell is alive, and the visualizer constructed for it.\<close>

definition dot_vis :: visualizer where
  "dot_vis = \<lparr>game = \<lparr>game_size = 1, initialDensity = 0, game_grid = [[1]]\<rparr>,
      store = [\<lparr>blob_x = 0, blob_y = 0, organismId = 0, isNew = False, visible = True\<rparr>],
      blobs = [0], blobsMap = [(''0,0'', 0)],
      organismGroups = [\<lparr>org_id = 0, org_blobs = [0], org_color = Num 0\<rparr>],
      pendingChanges = None, isAnimating = False\<rparr>"

text \<open>The changes prepared from two identical \<open>1\<times>1\<close> grids with the cell alive.\<close>

definition dot_same :: changes where
  "dot_same = \<lparr>appearingCells = [], disappearingCells = [], persistentCells = [(0, 0)],
                newBlobs = [], blobsToRemove = []\<rparr>"


text \<open>A horizontal blinker on a \<open>5\<times>5\<close> grid.\<close>

definition blinker :: game where
  "blinker = \<lparr>game_size = 5, initialDensity = 0, game_grid =
      [[0, 0, 0, 0, 0], [0, 0, 0, 0, 0], [0, 1, 1, 1, 0], [0, 0, 0, 0, 0], [0, 0, 0, 0, 0]]\<rparr>"

text \<open>
  The rest of a promise chain, every tween completing: the continuation of a registered
  join runs, and then the continuation of the join it registers.
\<close>

fun completeJoin :: "join option \<Rightarrow> visualizer \<Rightarrow> visualizer" where
  "completeJoin None v = v"
| "completeJoin (Some (Join n (AfterShrink ch))) v = afterGrow (fst (afterShrink ch v))"
| "completeJoin (Some (Join n AfterGrow)) v = afterGrow v"

text \<open>
  A run of the application on the blinker: the visualizer is constructed; a first \<open>step\<close>
  starts a transition; while it is animating a second \<open>step\<close> is taken (the
  ``Step Forward'' button calls \<open>step\<close> directly); the transition completes; a third
  \<open>step\<close> starts the next transition, which completes.
\<close>

definition interruptedRun :: "error + visualizer" where
  "interruptedRun =
     bind_err (newVisualizer blinker) (\<lambda>v0.
     bind_err (step v0) (\<lambda>r1. case r1 of (v1, j1) \<Rightarrow>
     bind_err (step v1) (\<lambda>r2. case r2 of (v2, j2) \<Rightarrow>
     bind_err (step (completeJoin j1 v2)) (\<lambda>r3. case r3 of (v3, j3) \<Rightarrow>
     Inr (completeJoin j3 v3)))))"

text \<open>The \<open>N\<times>N\<close> grid whose live cells \<open>(x, y)\<close> are those of a list.\<close>

definition grid_of :: "nat \<Rightarrow> (nat \<times> nat) list \<Rightarrow> int list list" where
  "grid_of N live = map (\<lambda>y. map (\<lambda>x. if (x, y) \<in> set live then 1 else 0) [0..<N]) [0..<N]"

text \<open>The live cells \<open>{(0,0), (0,1), (5,5)}\<close> on a \<open>10\<times>10\<close> grid.\<close>

definition three_cells :: game where
  "three_cells = \<lparr>game_size = 10, initialDensity = 0, game_grid = grid_of 10 [(0, 0), (0, 1), (5, 5)]\<rparr>"

text \<open>The live cells \<open>{(0,0), (9,9)}\<close> on a \<open>10\<times>10\<close> grid.\<close>

definition wrap_cells :: game where
  "wrap_cells = \<lparr>game_size = 10, initialDensity = 0, game_grid = grid_of 10 [(0, 0), (9, 9)]\<rparr>"

text \<open>The visualizers constructed for these two games.\<close>

definition three_vis :: visualizer where
  "three_vis = \<lparr>game = three_cells,
      store = [\<lparr>blob_x = 0, blob_y = 0, organismId = 0, isNew = False, visible = True\<rparr>,
               \<lparr>blob_x = 0, blob_y = 1, organismId = 0, isNew = False, visible = True\<rparr>,
               \<lparr>blob_x = 5, blob_y = 5, organismId = 1, isNew = False, visible = True\<rparr>],
      blobs = [0, 1, 2], blobsMap = [(''0,0'', 0), (''0,1'', 1), (''5,5'', 2)],
      organismGroups = [\<lparr>org_id = 0, org_blobs = [0, 1], org_color = Num 0\<rparr>,
                        \<lparr>org_id = 1, org_blobs = [2], org_color = Num 1\<rparr>],
      pendingChanges = None, isAnimating = False\<rparr>"

definition wrap_vis :: visualizer where
  "wrap_vis = \<lparr>game = wrap_cells,
      store = [\<lparr>blob_x = 0, blob_y = 0, organismId = 0, isNew = False, visible = True\<rparr>,
               \<lparr>blob_x = 9, blob_y = 9, organismId = 0, isNew = False, visible = True\<rparr>],
      blobs = [0, 1], blobsMap = [(''0,0'', 0), (''9,9'', 1)],
      organismGroups = [\<lparr>org_id = 0, org_blobs = [0, 1], org_color = Num 0\<rparr>],
      pendingChanges = None, isAnimating = False\<rparr>"

text \<open>
  A \<open>2\<times>2\<close> game whose cell \<open>(0, 0)\<close> is alive, the visualizer constructed for it, and a
  next grid in which that cell dies and the cell \<open>(1, 1)\<close> appears.
\<close>

definition duo_vis :: visualizer where
  "duo_vis = \<lparr>game = \<lparr>game_size = 2, initialDensity = 0, game_grid = [[1, 0], [0, 0]]\<rparr>,
      store = [\<lparr>blob_x = 0, blob_y = 0, organismId = 0, isNew = False, visible = True\<rparr>],
      blobs = [0], blobsMap = [(''0,0'', 0)],
      organismGroups = [\<lparr>org_id = 0, org_blobs = [0], org_color = Num 0\<rparr>],
      pendingChanges = None, isAnimating = False\<rparr>"

definition duo_changes :: changes where
  "duo_changes = \<lparr>appearingCells = [(1, 1)], disappearingCells = [(0, 0)], persistentCells = [],
                   newBlobs = [1], blobsToRemove = [0]\<rparr>"

definition duo_prepared :: visualizer where
  "duo_prepared = duo_vis\<lparr>
      store := [\<lparr>blob_x = 0, blob_y = 0, organismId = 0, isNew = False, visible = True\<rparr>,
                \<lparr>blob_x = 1, blob_y = 1, organismId = - 1, isNew = True, visible = False\<rparr>],
      pendingChanges := Some duo_changes\<rparr>"

section \<open>Basic facts: wrapping, loops, frames\<close>

lemma js_rem_wrap:
  assumes "0 < n" "- n \<le> x"
  shows "js_rem (x + n) n = Num (x mod n)"
proof -
  have "0 \<le> x + n" using assms by simp
  then have "sgn (x + n) * (\<bar>x + n\<bar> mod \<bar>n\<bar>) = (x + n) mod n"
    using assms by (cases "x + n = 0") (simp_all add: sgn_if)
  then show ?thesis using assms by (simp add: js_rem_def)
qed

lemma js_index2_square:
  assumes "square_grid N grid" "0 \<le> j" "j < int N" "0 \<le> i" "i < int N"
  shows "js_index2 grid (Num j) (Num i) = Inr (Num (grid ! nat j ! nat i))"
proof -
  have "nat j < length grid" using assms by (simp add: square_grid_def)
  then have "grid ! nat j \<in> set grid" by simp
  then have "length (grid ! nat j) = N" using assms by (simp add: square_grid_def)
  then show ?thesis using assms by (simp add: js_index2_def square_grid_def)
qed

lemma getCell_wrap:
  assumes "square_grid N (game_grid g)" "game_size g = int N" "1 \<le> N" "- int N \<le> x" "- int N \<le> y"
  shows "getCell g x y = Inr (Num (torus_cell (game_grid g) N x y))"
proof -
  have n: "0 < int N" using assms by simp
  have "js_rem (x + int N) (int N) = Num (x mod int N)" "js_rem (y + int N) (int N) = Num (y mod int N)"
    using js_rem_wrap[OF n] assms by simp_all
  moreover have "0 \<le> x mod int N" "x mod int N < int N" "0 \<le> y mod int N" "y mod int N < int N"
    using n by simp_all
  ultimately show ?thesis
    using assms js_index2_square[of N "game_grid g" "y mod int N" "x mod int N"]
    by (simp add: getCell_def torus_cell_def)
qed

lemma js_rem_multiple:
  assumes "0 < n" "n dvd x"
  shows "js_rem (x + n) n = Num (x mod n)"
proof -
  have "n dvd x + n" using assms(2) by simp
  then have "\<bar>x + n\<bar> mod \<bar>n\<bar> = 0" by simp
  then show ?thesis using assms by (simp add: js_rem_def)
qed

lemma js_rem_below:
  assumes "0 < n" "x < - n" "\<not> n dvd x"
  shows "\<exists>r. js_rem (x + n) n = Num r \<and> r < 0"
proof -
  have neg: "x + n < 0" using assms(2) by simp
  have "\<not> n dvd x + n" using assms(3) by simp
  then have "\<not> \<bar>n\<bar> dvd \<bar>x + n\<bar>" by simp
  then have "\<bar>x + n\<bar> mod \<bar>n\<bar> \<noteq> 0" by (simp only: dvd_eq_mod_eq_0 not_False_eq_True)
  moreover have "0 \<le> \<bar>x + n\<bar> mod \<bar>n\<bar>" using assms(1) by simp
  ultimately have "0 < \<bar>x + n\<bar> mod \<bar>n\<bar>" by linarith
  then have "sgn (x + n) * (\<bar>x + n\<bar> mod \<bar>n\<bar>) < 0" using neg by (simp add: sgn_if)
  then show ?thesis using assms(1) by (simp add: js_rem_def)
qed

lemma js_rem_inside:
  assumes "0 < n" "- n \<le> x \<or> n dvd x"
  shows "js_rem (x + n) n = Num (x mod n)"
  using assms js_rem_wrap[of n x] js_rem_multiple[of n x] by blast

lemma js_index2_negative_row: "r < 0 \<Longrightarrow> js_index2 grid (Num r) c = Inl TypeError"
  by (simp add: js_index2_def)

lemma js_index2_negative_cell:
  assumes "square_grid N grid" "0 \<le> j" "j < int N" "r < 0"
  shows "js_index2 grid (Num j) (Num r) = Inr Undefined"
  using assms by (simp add: js_index2_def square_grid_def)

lemma for_fold_inv:
  assumes "\<And>i s. i \<in> set ixs \<Longrightarrow> P s \<Longrightarrow> \<exists>s'. f i s = Inr s' \<and> P s'" "P s"
  shows "\<exists>s'. for_fold f ixs s = Inr s' \<and> P s'"
  using assms
proof (induction ixs arbitrary: s)
  case Nil
  then show ?case by simp
next
  case (Cons i ixs)
  from Cons.prems(1)[of i s] Cons.prems(2) obtain s1 where s1: "f i s = Inr s1" "P s1" by auto
  have "\<exists>s'. for_fold f ixs s1 = Inr s' \<and> P s'"
    by (rule Cons.IH) (use Cons.prems(1) s1 in auto)
  then show ?case using s1 by simp
qed

lemma identify_frame [simp]:
  "game (identifyOrganismGroups v) = game v"
  "blobs (identifyOrganismGroups v) = blobs v"
  "blobsMap (identifyOrganismGroups v) = blobsMap v"
  "pendingChanges (identifyOrganismGroups v) = pendingChanges v"
  "isAnimating (identifyOrganismGroups v) = isAnimating v"
  by (simp_all add: identifyOrganismGroups_def split: prod.splits)

lemma removeBlobs_frame [simp]:
  "game (foldl removeBlob v bs) = game v"
  "store (foldl removeBlob v bs) = store v"
  "organismGroups (foldl removeBlob v bs) = organismGroups v"
  "pendingChanges (foldl removeBlob v bs) = pendingChanges v"
  "isAnimating (foldl removeBlob v bs) = isAnimating v"
  by (induction bs arbitrary: v) (simp_all add: removeBlob_def)

lemma addBlobs_frame [simp]:
  "game (foldl addBlob v bs) = game v"
  "store (foldl addBlob v bs) = store v"
  "organismGroups (foldl addBlob v bs) = organismGroups v"
  "pendingChanges (foldl addBlob v bs) = pendingChanges v"
  "isAnimating (foldl addBlob v bs) = isAnimating v"
  by (induction bs arbitrary: v) (simp_all add: addBlob_def)

lemma showBlobs_frame [simp]:
  "game (foldl showBlob v bs) = game v"
  "blobs (foldl showBlob v bs) = blobs v"
  "blobsMap (foldl showBlob v bs) = blobsMap v"
  "organismGroups (foldl showBlob v bs) = organismGroups v"
  "pendingChanges (foldl showBlob v bs) = pendingChanges v"
  "isAnimating (foldl showBlob v bs) = isAnimating v"
  by (induction bs arbitrary: v) (simp_all add: showBlob_def)

lemma clearNews_frame [simp]:
  "game (foldl clearNew v bs) = game v"
  "blobs (foldl clearNew v bs) = blobs v"
  "blobsMap (foldl clearNew v bs) = blobsMap v"
  "organismGroups (foldl clearNew v bs) = organismGroups v"
  "pendingChanges (foldl clearNew v bs) = pendingChanges v"
  "isAnimating (foldl clearNew v bs) = isAnimating v"
  by (induction bs arbitrary: v) (simp_all add: clearNew_def)

lemma afterShrink_frame [simp]:
  "pendingChanges (fst (afterShrink ch v)) = pendingChanges v"
  "isAnimating (fst (afterShrink ch v)) = isAnimating v"
  "game (fst (afterShrink ch v)) = game v"
  by (simp_all add: afterShrink_def startGrow_def updateCollections_def)

lemma neighbourOffsets_eq:
  "neighbourOffsets = [(-1, -1), (0, -1), (1, -1), (-1, 0), (1, 0), (-1, 1), (0, 1), (1, 1)]"
  by (simp add: neighbourOffsets_def)

lemma for_fold_snoc: "for_fold f (xs @ [x]) s = bind_err (for_fold f xs s) (f x)"
proof (induction xs arbitrary: s)
  case Nil
  show ?case by (cases "f x s") simp_all
next
  case (Cons a xs)
  show ?case by (cases "f a s") (simp_all add: Cons.IH)
qed

lemma for_fold_append: "for_fold f (xs @ ys) s = bind_err (for_fold f xs s) (for_fold f ys)"
proof (induction xs arbitrary: s)
  case Nil
  show ?case by simp
next
  case (Cons a xs)
  show ?case by (cases "f a s") (simp_all add: Cons.IH)
qed

lemma for_fold_map: "for_fold f (map g xs) s = for_fold (\<lambda>x. f (g x)) xs s"
proof (induction xs arbitrary: s)
  case Nil
  show ?case by simp
next
  case (Cons a xs)
  show ?case by (cases "f (g a) s") (simp_all add: Cons.IH)
qed

lemma for_fold_nested:
  "for_fold (\<lambda>y. for_fold (f y) xs) ys s = for_fold (\<lambda>p. f (fst p) (snd p)) (List.product ys xs) s"
proof (induction ys arbitrary: s)
  case Nil
  show ?case by simp
next
  case (Cons y ys)
  have "for_fold (\<lambda>p. f (fst p) (snd p)) (List.product (y # ys) xs) s
      = bind_err (for_fold (\<lambda>p. f (fst p) (snd p)) (map (Pair y) xs) s)
          (for_fold (\<lambda>p. f (fst p) (snd p)) (List.product ys xs))"
    by (simp add: for_fold_append)
  also have "for_fold (\<lambda>p. f (fst p) (snd p)) (map (Pair y) xs) s = for_fold (f y) xs s"
    by (simp add: for_fold_map)
  also have "for_fold (\<lambda>p. f (fst p) (snd p)) (List.product ys xs)
      = for_fold (\<lambda>y. for_fold (f y) xs) ys"
    by (rule ext) (simp add: Cons.IH)
  finally show ?case by simp
qed

section \<open>The breadth-first search\<close>

lemma sameBlobs_refl [simp]: "sameBlobs st st"
  by (simp add: sameBlobs_def)

lemma sameBlobs_trans: "sameBlobs st st1 \<Longrightarrow> sameBlobs st1 st2 \<Longrightarrow> sameBlobs st st2"
  by (simp add: sameBlobs_def)

lemma sameBlobs_setId: "sameBlobs st (st[b := (st ! b)\<lparr>organismId := oid\<rparr>])"
proof -
  have "(st[b := (st ! b)\<lparr>organismId := oid\<rparr>]) ! i = (if i = b \<and> b < length st then (st ! b)\<lparr>organismId := oid\<rparr> else st ! i)" for i
    by (cases "b < length st") (auto simp: nth_list_update list_update_beyond)
  then show ?thesis by (simp add: sameBlobs_def)
qed

lemma sameBlobs_blobKey: "sameBlobs st st' \<Longrightarrow> blobKey st' = blobKey st"
  by (rule ext) (simp add: sameBlobs_def blobKey_def)

lemma sameBlobs_soundMap: "sameBlobs st st' \<Longrightarrow> soundMap bm st' bs = soundMap bm st bs"
  by (simp add: soundMap_def sameBlobs_blobKey)

lemma sameBlobs_closedUnder: "sameBlobs st st' \<Longrightarrow> closedUnder sz bm st' P V = closedUnder sz bm st P V"
  by (simp add: closedUnder_def sameBlobs_def)

lemma closedUnder_mono: "closedUnder sz bm st P V \<Longrightarrow> V \<subseteq> V' \<Longrightarrow> closedUnder sz bm st P V'"
  unfolding closedUnder_def by blast

lemma closedUnder_Un:
  "closedUnder sz bm st P V \<Longrightarrow> closedUnder sz bm st Q V \<Longrightarrow> closedUnder sz bm st (P \<union> Q) V"
  unfolding closedUnder_def by blast

text \<open>the neighbour loops\<close>

lemma checkNeighbors_spec:
  assumes "soundMap bm st bs"
  shows "\<exists>new. foldl (checkNeighbor sz bm x y) (q, V) ds = (q @ new, V \<union> blobKey st ` set new) \<and>
           distinct (map (blobKey st) new) \<and> blobKey st ` set new \<inter> V = {} \<and> set new \<subseteq> set bs \<and>
           (\<forall>d \<in> set ds. \<forall>nb. map_of bm (neighborKey sz x y d) = Some nb
               \<longrightarrow> neighborKey sz x y d \<in> V \<union> blobKey st ` set new)"
proof (induction ds arbitrary: q V)
  case Nil
  show ?case by simp
next
  case (Cons d ds)
  let ?k = "neighborKey sz x y d"
  show ?case
  proof (cases "map_of bm ?k")
    case None
    then have step: "checkNeighbor sz bm x y (q, V) d = (q, V)" by (simp add: checkNeighbor_def)
    from Cons.IH[of q V] obtain new where
      "foldl (checkNeighbor sz bm x y) (q, V) ds = (q @ new, V \<union> blobKey st ` set new)"
      "distinct (map (blobKey st) new)" "blobKey st ` set new \<inter> V = {}" "set new \<subseteq> set bs"
      "\<forall>d \<in> set ds. \<forall>nb. map_of bm (neighborKey sz x y d) = Some nb
               \<longrightarrow> neighborKey sz x y d \<in> V \<union> blobKey st ` set new"
      by blast
    then show ?thesis using step None by auto
  next
    case (Some nb)
    then have nb: "nb \<in> set bs" "?k = blobKey st nb" using assms by (auto simp: soundMap_def)
    show ?thesis
    proof (cases "?k \<in> V")
      case True
      then have step: "checkNeighbor sz bm x y (q, V) d = (q, V)" using Some by (simp add: checkNeighbor_def)
      from Cons.IH[of q V] obtain new where
        "foldl (checkNeighbor sz bm x y) (q, V) ds = (q @ new, V \<union> blobKey st ` set new)"
        "distinct (map (blobKey st) new)" "blobKey st ` set new \<inter> V = {}" "set new \<subseteq> set bs"
        "\<forall>d \<in> set ds. \<forall>nb. map_of bm (neighborKey sz x y d) = Some nb
                 \<longrightarrow> neighborKey sz x y d \<in> V \<union> blobKey st ` set new"
        by blast
      then show ?thesis using step True by auto
    next
      case False
      then have step: "checkNeighbor sz bm x y (q, V) d = (q @ [nb], insert ?k V)"
        using Some by (simp add: checkNeighbor_def)
      from Cons.IH[of "q @ [nb]" "insert ?k V"] obtain new where new:
        "foldl (checkNeighbor sz bm x y) (q @ [nb], insert ?k V) ds
           = ((q @ [nb]) @ new, insert ?k V \<union> blobKey st ` set new)"
        "distinct (map (blobKey st) new)" "blobKey st ` set new \<inter> insert ?k V = {}" "set new \<subseteq> set bs"
        "\<forall>d \<in> set ds. \<forall>nb. map_of bm (neighborKey sz x y d) = Some nb
                 \<longrightarrow> neighborKey sz x y d \<in> insert ?k V \<union> blobKey st ` set new"
        by blast
      have 1: "foldl (checkNeighbor sz bm x y) (q, V) (d # ds)
          = (q @ (nb # new), V \<union> blobKey st ` set (nb # new))"
        using step new(1) nb(2) by simp
      have 2: "distinct (map (blobKey st) (nb # new))" using new(2,3) nb(2) by auto
      have 3: "blobKey st ` set (nb # new) \<inter> V = {}" using new(3) False nb(2) by auto
      have 4: "set (nb # new) \<subseteq> set bs" using new(4) nb(1) by simp
      have 5: "\<forall>d' \<in> set (d # ds). \<forall>nb'. map_of bm (neighborKey sz x y d') = Some nb'
                 \<longrightarrow> neighborKey sz x y d' \<in> V \<union> blobKey st ` set (nb # new)"
        using new(5) nb(2) by auto
      show ?thesis using 1 2 3 4 5 by blast
    qed
  qed
qed


lemma bfs_spec:
  assumes "soundMap bm st bs" "distinct (map (blobKey st) (pre @ m @ q))"
    and "V = blobKey st ` set (pre @ m @ q)" "set q \<subseteq> set bs"
    and "closedUnder sz bm st (set (pre @ m)) V"
  shows "\<exists>V' m' st' r. bfs sz bm oid q V m st = (V', m', st') \<and> sameBlobs st st' \<and>
           m' = m @ q @ r \<and> set r \<subseteq> set bs \<and>
           distinct (map (blobKey st) (pre @ m')) \<and> V' = blobKey st ` set (pre @ m') \<and>
           closedUnder sz bm st (set (pre @ m')) V' \<and>
           (\<forall>b. b \<notin> set (q @ r) \<longrightarrow> st' ! b = st ! b) \<and>
           (\<forall>b \<in> set (q @ r). b < length st \<longrightarrow> organismId (st' ! b) = oid)"
  using assms
proof (induction sz bm oid q V m st rule: bfs.induct)
  case (1 sz bm oid V m st)
  then show ?case by simp
next
  case (2 sz bm oid c rest V m st)
  define m1 where "m1 = m @ [c]"
  define st1 where "st1 = st[c := (st ! c)\<lparr>organismId := oid\<rparr>]"
  define qv where "qv = foldl (checkNeighbor sz bm (blob_x (st1 ! c)) (blob_y (st1 ! c)))
                          (rest, V) neighbourOffsets"
  have same1: "sameBlobs st st1" unfolding st1_def by (rule sameBlobs_setId)
  have kf1: "blobKey st1 = blobKey st" using same1 by (rule sameBlobs_blobKey)
  have sound1: "soundMap bm st1 bs" using "2.prems"(1) sameBlobs_soundMap[OF same1] by simp
  have xy: "blob_x (st1 ! c) = blob_x (st ! c)" "blob_y (st1 ! c) = blob_y (st ! c)"
    using same1 by (simp_all add: sameBlobs_def)
  from checkNeighbors_spec[OF sound1, of sz "blob_x (st1 ! c)" "blob_y (st1 ! c)" rest V neighbourOffsets]
  obtain new where new:
    "qv = (rest @ new, V \<union> blobKey st ` set new)"
    "distinct (map (blobKey st) new)" "blobKey st ` set new \<inter> V = {}" "set new \<subseteq> set bs"
    "\<forall>d \<in> set neighbourOffsets. \<forall>nb.
        map_of bm (neighborKey sz (blob_x (st ! c)) (blob_y (st ! c)) d) = Some nb
          \<longrightarrow> neighborKey sz (blob_x (st ! c)) (blob_y (st ! c)) d \<in> V \<union> blobKey st ` set new"
    unfolding qv_def kf1 xy by blast
  have V: "V = blobKey st ` set (pre @ m @ c # rest)" using "2.prems"(3) .
  have d1: "distinct (map (blobKey st1) (pre @ m1 @ fst qv))"
    using "2.prems"(2) new(2,3) unfolding kf1 m1_def new(1) V by auto
  have v1: "snd qv = blobKey st1 ` set (pre @ m1 @ fst qv)"
    unfolding kf1 m1_def new(1) V by auto
  have q1: "set (fst qv) \<subseteq> set bs" using "2.prems"(4) new(4) unfolding new(1) by simp
  have "closedUnder sz bm st (set (pre @ m)) (snd qv)"
    using closedUnder_mono[OF "2.prems"(5)] unfolding new(1) by auto
  moreover have "closedUnder sz bm st {c} (snd qv)"
    using new(5) unfolding new(1) closedUnder_def by simp
  ultimately have "closedUnder sz bm st (set (pre @ m) \<union> {c}) (snd qv)"
    by (rule closedUnder_Un)
  then have c1: "closedUnder sz bm st1 (set (pre @ m1)) (snd qv)"
    using sameBlobs_closedUnder[OF same1] by (simp add: m1_def)
  from "2.IH"[OF m1_def st1_def qv_def sound1 d1 v1 q1 c1]
  obtain V' m' st' r where r:
    "bfs sz bm oid (fst qv) (snd qv) m1 st1 = (V', m', st')" "sameBlobs st1 st'"
    "m' = m1 @ fst qv @ r" "set r \<subseteq> set bs"
    "distinct (map (blobKey st1) (pre @ m'))" "V' = blobKey st1 ` set (pre @ m')"
    "closedUnder sz bm st1 (set (pre @ m')) V'"
    "\<forall>b. b \<notin> set (fst qv @ r) \<longrightarrow> st' ! b = st1 ! b"
    "\<forall>b \<in> set (fst qv @ r). b < length st1 \<longrightarrow> organismId (st' ! b) = oid"
    by blast
  have e0: "bfs sz bm oid (c # rest) V m st = (V', m', st')"
    using r(1) by (simp add: m1_def st1_def qv_def Let_def)
  have e1: "sameBlobs st st'" using same1 r(2) by (rule sameBlobs_trans)
  have e2: "m' = m @ (c # rest) @ (new @ r)" using r(3) by (simp add: m1_def new(1))
  have e3: "set (new @ r) \<subseteq> set bs" using r(4) new(4) by simp
  have e4: "distinct (map (blobKey st) (pre @ m'))" using r(5) unfolding kf1 .
  have e5: "V' = blobKey st ` set (pre @ m')" using r(6) unfolding kf1 .
  have e6: "closedUnder sz bm st (set (pre @ m')) V'"
    using r(7) sameBlobs_closedUnder[OF same1] by simp
  have "distinct m'" using e4 by (simp add: distinct_map)
  then have cnot: "c \<notin> set (fst qv @ r)" unfolding r(3) m1_def by auto
  have len1: "length st1 = length st" by (simp add: st1_def)
  have e7: "\<forall>b. b \<notin> set ((c # rest) @ (new @ r)) \<longrightarrow> st' ! b = st ! b"
  proof (intro allI impI)
    fix b assume b: "b \<notin> set ((c # rest) @ (new @ r))"
    then have "st' ! b = st1 ! b" using r(8) by (simp add: new(1))
    moreover have "b \<noteq> c" using b by auto
    ultimately show "st' ! b = st ! b" by (simp add: st1_def)
  qed
  have e8: "\<forall>b \<in> set ((c # rest) @ (new @ r)). b < length st \<longrightarrow> organismId (st' ! b) = oid"
  proof (intro ballI impI)
    fix b assume b: "b \<in> set ((c # rest) @ (new @ r))" "b < length st"
    show "organismId (st' ! b) = oid"
    proof (cases "b = c")
      case True
      then have "st' ! b = st1 ! c" using r(8) cnot by simp
      then show ?thesis using b(2) True by (simp add: st1_def)
    next
      case False
      then have "b \<in> set (fst qv @ r)" using b(1) by (auto simp: new(1))
      then show ?thesis using r(9) b(2) len1 by simp
    qed
  qed
  show ?case using e0 e1 e2 e3 e4 e5 e6 e7 e8 by blast
qed

lemma members_snoc [simp]: "members (gs @ [g]) = members gs @ org_blobs g"
  by (simp add: members_def)

lemma members_Nil [simp]: "members [] = []"
  by (simp add: members_def)


lemma subseq_snoc_right: "subseq xs ys \<Longrightarrow> subseq xs (ys @ [b])"
  by auto

lemma organismsLoop_inv:
  assumes sound: "soundMap bm st0 bs"
    and alloc: "\<forall>b \<in> set bs. b < length st0"
    and reg: "\<forall>b \<in> set bs. map_of bm (blobKey st0 b) = Some b"
  shows "orgInv sz bm st0 bs seen acc \<Longrightarrow> set rest \<subseteq> set bs
           \<Longrightarrow> orgInv sz bm st0 bs (seen @ rest) (organismsLoop sz bm rest acc)"
proof (induction rest arbitrary: seen acc)
  case Nil
  then show ?case by simp
next
  case (Cons b rest)
  obtain oid V gs st where acc: "acc = (oid, V, gs, st)" by (cases acc)
  note inv = Cons.prems(1)[unfolded acc orgInv_def prod.case]
  have same: "sameBlobs st0 st" using inv by simp
  have kf: "blobKey st = blobKey st0" using same by (rule sameBlobs_blobKey)
  have b: "b \<in> set bs" and rest: "set rest \<subseteq> set bs" using Cons.prems(2) by simp_all
  have inj: "x = y" if "x \<in> set bs" "y \<in> set bs" "blobKey st0 x = blobKey st0 y" for x y
    using reg that by (metis option.inject)
  show ?case
  proof (cases "blobKey st b \<in> V")
    case True
    then obtain b' where b': "b' \<in> set (members gs)" "blobKey st0 b' = blobKey st0 b"
      using inv kf by auto
    then have "b' = b" using inj[of b' b] inv b by auto
    then have "b \<in> set (members gs)" using b' by simp
    then have "orgInv sz bm st0 bs (seen @ [b]) acc"
      using Cons.prems(1) unfolding acc orgInv_def prod.case by (simp add: subseq_snoc_right)
    from Cons.IH[OF this rest] show ?thesis using True by (simp add: acc)
  next
    case False
    let ?pre = "members gs"
    have sound': "soundMap bm st bs" using sound sameBlobs_soundMap[OF same] by simp
    have d0: "distinct (map (blobKey st) (?pre @ [] @ [b]))" using inv False kf by auto
    have v0: "insert (blobKey st b) V = blobKey st ` set (?pre @ [] @ [b])" using inv kf by auto
    have q0: "set [b] \<subseteq> set bs" using b by simp
    have "closedUnder sz bm st0 (set (members (take (length gs) gs)))
            (blobKey st0 ` set (members (take (length gs) gs)))"
      using inv by blast
    then have "closedUnder sz bm st0 (set ?pre) (insert (blobKey st b) V)"
      using inv by (auto intro: closedUnder_mono)
    then have c0: "closedUnder sz bm st (set (?pre @ [])) (insert (blobKey st b) V)"
      using sameBlobs_closedUnder[OF same] by simp
    from bfs_spec[OF sound' d0 v0 q0 c0, of oid]
    obtain V' m' st' r where r:
      "bfs sz bm oid [b] (insert (blobKey st b) V) [] st = (V', m', st')" "sameBlobs st st'"
      "m' = [] @ [b] @ r" "set r \<subseteq> set bs"
      "distinct (map (blobKey st) (?pre @ m'))" "V' = blobKey st ` set (?pre @ m')"
      "closedUnder sz bm st (set (?pre @ m')) V'"
      "\<forall>x. x \<notin> set ([b] @ r) \<longrightarrow> st' ! x = st ! x"
      "\<forall>x \<in> set ([b] @ r). x < length st \<longrightarrow> organismId (st' ! x) = oid"
      by blast
    let ?g = "\<lparr>org_id = oid, org_blobs = m', org_color = js_rem oid 6\<rparr>"
    let ?gs = "gs @ [?g]"
    have m': "m' = b # r" using r(3) by simp
    have len: "length st = length st0" using same by (simp add: sameBlobs_def)
    have i1: "sameBlobs st0 st'" using same r(2) by (rule sameBlobs_trans)
    have i2: "oid + 1 = int (length ?gs)" using inv by simp
    have i3: "map org_id ?gs = map int [0..<length ?gs]" using inv by simp
    have i4: "distinct (map (blobKey st0) (members ?gs))" using r(5) kf by simp
    have i5: "V' = blobKey st0 ` set (members ?gs)" using r(6) kf by simp
    have i6: "set (members ?gs) \<subseteq> set bs" using inv r(4) b m' by auto
    have i7: "\<forall>g \<in> set ?gs. org_blobs g \<noteq> []" using inv m' by auto
    have i8: "closedUnder sz bm st0 (set (members (take n ?gs)))
                (blobKey st0 ` set (members (take n ?gs)))" if "n \<le> length ?gs" for n
    proof (cases "n \<le> length gs")
      case True
      then show ?thesis using inv by simp
    next
      case False
      then have "take n ?gs = ?gs" using that by simp
      then show ?thesis using r(7) r(6) sameBlobs_closedUnder[OF same] kf by simp
    qed
    have i9: "set (seen @ [b]) \<subseteq> set (members ?gs)" using inv m' by auto
    have dm: "distinct (?pre @ m')" using r(5) by (simp only: distinct_map)
    have i10: "organismId (st' ! x) = int i" if "i < length ?gs" "x \<in> set (org_blobs (?gs ! i))" for i x
    proof (cases "i < length gs")
      case True
      then have x: "x \<in> set (org_blobs (gs ! i))" using that(2) by (simp add: nth_append)
      then have "x \<in> set ?pre" using True by (auto simp: members_def)
      then have "x \<notin> set ([b] @ r)" using dm m' by auto
      then have "st' ! x = st ! x" using r(8) by blast
      then show ?thesis using inv True x by simp
    next
      case False
      then have i: "i = length gs" using that(1) by simp
      then have x: "x \<in> set ([b] @ r)" using that(2) m' by simp
      then have "x \<in> set bs" using b r(4) by auto
      then have "x < length st" using alloc len by simp
      then have "organismId (st' ! x) = oid" using r(9) x by blast
      moreover have "oid = int (length gs)" using inv by simp
      ultimately show ?thesis using i by simp
    qed
    have i11: "subseq (map (\<lambda>g. hd (org_blobs g)) ?gs) (seen @ [b])" using inv m' by simp
    have "orgInv sz bm st0 bs (seen @ [b]) (oid + 1, V', ?gs, st')"
      unfolding orgInv_def prod.case
      using i1 i2 i3 i4 i5 i6 i7 i8 i9 i10 i11 by blast
    from Cons.IH[OF this rest] show ?thesis using False r(1) by (simp add: acc)
  qed
qed

lemma orgInv_init: "orgInv sz bm st0 bs [] (0, {}, [], st0)"
  by (simp add: orgInv_def closedUnder_def)

lemma bookkeeping_soundMap:
  assumes "bookkeeping_ok N v"
  shows "soundMap (blobsMap v) (store v) (blobs v)"
  unfolding soundMap_def
proof (intro allI impI)
  fix k b assume "map_of (blobsMap v) k = Some b"
  then have "(k, b) \<in> set (blobsMap v)" by (rule map_of_SomeD)
  then show "b \<in> set (blobs v) \<and> k = blobKey (store v) b"
    using assms by (auto simp: bookkeeping_ok_def)
qed

lemma identify_orgInv:
  assumes "bookkeeping_ok N v"
  shows "\<exists>oid V gs st.
           identifyOrganismGroups v = v\<lparr>store := st, organismGroups := gs\<rparr> \<and>
           orgInv (int N) (blobsMap v) (store v) (blobs v) (blobs v) (oid, V, gs, st)"
proof -
  have alloc: "\<forall>b \<in> set (blobs v). b < length (store v)"
    and reg: "\<forall>b \<in> set (blobs v). map_of (blobsMap v) (blobKey (store v) b) = Some b"
    and sz: "game_size (game v) = int N"
    using assms by (simp_all add: bookkeeping_ok_def)
  from organismsLoop_inv[OF bookkeeping_soundMap[OF assms] alloc reg orgInv_init, of "blobs v" "int N"]
  have inv: "orgInv (int N) (blobsMap v) (store v) (blobs v) (blobs v)
          (organismsLoop (int N) (blobsMap v) (blobs v) (0, {}, [], store v))"
    by simp
  obtain oid V gs st where r:
    "organismsLoop (int N) (blobsMap v) (blobs v) (0, {}, [], store v) = (oid, V, gs, st)"
    by (cases "organismsLoop (int N) (blobsMap v) (blobs v) (0, {}, [], store v)")
  have "identifyOrganismGroups v = v\<lparr>store := st, organismGroups := gs\<rparr>"
    using r sz by (simp add: identifyOrganismGroups_def)
  then show ?thesis using inv r by auto
qed

lemma concat_index_unique:
  assumes "distinct (concat xss)" "i < length xss" "j < length xss"
    and "b \<in> set (xss ! i)" "b \<in> set (xss ! j)"
  shows "i = j"
  using assms
proof (induction xss arbitrary: i j)
  case Nil
  then show ?case by simp
next
  case (Cons xs xss)
  have disj: "set xs \<inter> set (concat xss) = {}" and d: "distinct (concat xss)"
    using Cons.prems(1) by auto
  have inc: "b \<in> set (concat xss)" if "k < length xss" "b \<in> set (xss ! k)" for k
    using that by (auto intro: nth_mem)
  show ?case
  proof (cases i)
    case 0
    show ?thesis
    proof (cases j)
      case 0
      then show ?thesis using \<open>i = 0\<close> by simp
    next
      case (Suc j')
      then have "b \<in> set (concat xss)" using inc[of j'] Cons.prems(3,5) by simp
      then show ?thesis using disj Cons.prems(4) \<open>i = 0\<close> by auto
    qed
  next
    case (Suc i')
    show ?thesis
    proof (cases j)
      case 0
      have "b \<in> set (concat xss)" using inc[of i'] Cons.prems(2,4) Suc by simp
      then show ?thesis using disj Cons.prems(5) 0 by auto
    next
      case (Suc j')
      then show ?thesis
        using Cons.IH[OF d, of i' j'] Cons.prems(2,3,4,5) \<open>i = Suc i'\<close> by simp
    qed
  qed
qed

lemma in_members_take:
  "b \<in> set (members (take n gs)) \<longleftrightarrow> (\<exists>j < n. j < length gs \<and> b \<in> set (org_blobs (gs ! j)))"
proof
  assume "b \<in> set (members (take n gs))"
  then obtain g where g: "g \<in> set (take n gs)" "b \<in> set (org_blobs g)"
    by (auto simp: members_def)
  then obtain j where "j < length (take n gs)" "take n gs ! j = g"
    by (auto simp: in_set_conv_nth)
  then show "\<exists>j < n. j < length gs \<and> b \<in> set (org_blobs (gs ! j))"
    using g(2) by auto
next
  assume "\<exists>j < n. j < length gs \<and> b \<in> set (org_blobs (gs ! j))"
  then obtain j where j: "j < n" "j < length gs" "b \<in> set (org_blobs (gs ! j))" by blast
  then have "gs ! j \<in> set (take n gs)"
    by (metis in_set_conv_nth length_take min_less_iff_conj nth_take)
  then show "b \<in> set (members (take n gs))" using j(3) by (auto simp: members_def)
qed

lemma in_members: "b \<in> set (members gs) \<longleftrightarrow> (\<exists>j < length gs. b \<in> set (org_blobs (gs ! j)))"
  using in_members_take[of b "length gs" gs] by auto

lemma torus_adjacent_key:
  assumes "1 \<le> N" "torus_adjacent N (x, y) (x', y')" "0 \<le> x" "0 \<le> y" "x < int N" "y < int N"
  shows "\<exists>d \<in> set neighbourOffsets. neighborKey (int N) x y d = key (Num x') (Num y')"
proof -
  have adj: "(x, y) \<noteq> (x', y')" "\<exists>dx \<in> {- 1, 0, 1}. (x + dx) mod int N = x'"
    "\<exists>dy \<in> {- 1, 0, 1}. (y + dy) mod int N = y'"
    using assms(2) by (simp_all add: torus_adjacent_def)
  obtain dx where dx: "dx \<in> {- 1, 0, 1}" "(x + dx) mod int N = x'" using adj(2) by blast
  obtain dy where dy: "dy \<in> {- 1, 0, 1}" "(y + dy) mod int N = y'" using adj(3) by blast
  note d = dx dy adj(1)
  have n: "0 < int N" using assms(1) by simp
  have "\<not> (dx = 0 \<and> dy = 0)"
  proof
    assume "dx = 0 \<and> dy = 0"
    then have "x' = x mod int N" "y' = y mod int N" using d(2,4) by simp_all
    then have "x' = x" "y' = y" using assms(3-6) by simp_all
    then show False using d(5) by simp
  qed
  then have mem: "(dx, dy) \<in> set neighbourOffsets" using d(1,3) by (auto simp: neighbourOffsets_eq)
  have "js_rem (x + dx + int N) (int N) = Num x'" "js_rem (y + dy + int N) (int N) = Num y'"
    using js_rem_wrap[OF n, of "x + dx"] js_rem_wrap[OF n, of "y + dy"] d(1,2,3,4) assms(1,3,4)
    by auto
  then have "neighborKey (int N) x y (dx, dy) = key (Num x') (Num y')"
    by (simp add: neighborKey_def)
  then show ?thesis using mem by blast
qed

lemma torus_adjacent_sym:
  assumes "torus_adjacent N (x, y) (x', y')" "0 \<le> x" "x < int N" "0 \<le> y" "y < int N"
  shows "torus_adjacent N (x', y') (x, y)"
proof -
  have adj: "(x, y) \<noteq> (x', y')" "\<exists>dx \<in> {- 1, 0, 1}. (x + dx) mod int N = x'"
    "\<exists>dy \<in> {- 1, 0, 1}. (y + dy) mod int N = y'"
    using assms(1) by (simp_all add: torus_adjacent_def)
  obtain dx where dx: "dx \<in> {- 1, 0, 1}" "(x + dx) mod int N = x'" using adj(2) by blast
  obtain dy where dy: "dy \<in> {- 1, 0, 1}" "(y + dy) mod int N = y'" using adj(3) by blast
  note d = dx dy adj(1)
  have "((x + dx) mod int N - dx) mod int N = (x + dx - dx) mod int N"
    "((y + dy) mod int N - dy) mod int N = (y + dy - dy) mod int N"
    by (rule mod_diff_left_eq)+
  then have "(x' + (- dx)) mod int N = x mod int N" "(y' + (- dy)) mod int N = y mod int N"
    using d(2,4) by simp_all
  then have "(x' + (- dx)) mod int N = x" "(y' + (- dy)) mod int N = y"
    using assms(2-5) by simp_all
  moreover have "- dx \<in> {- 1, 0, 1}" "- dy \<in> {- 1, 0, 1}" using d(1,3) by auto
  ultimately show ?thesis using d(5) unfolding torus_adjacent_def fst_conv snd_conv by blast
qed

lemma identify_clusters:
  assumes "bookkeeping_ok N v"
  shows "\<exists>gs st.
           identifyOrganismGroups v = v\<lparr>store := st, organismGroups := gs\<rparr> \<and>
           sameBlobs (store v) st \<and>
           set (members gs) = set (blobs v) \<and> distinct (members gs) \<and>
           map org_id gs = map int [0..<length gs] \<and>
           (\<forall>g \<in> set gs. org_blobs g \<noteq> []) \<and>
           subseq (map (\<lambda>g. hd (org_blobs g)) gs) (blobs v) \<and>
           (\<forall>i < length gs. \<forall>b \<in> set (org_blobs (gs ! i)). organismId (st ! b) = int i) \<and>
           (\<forall>n \<le> length gs. closedUnder (int N) (blobsMap v) (store v) (set (members (take n gs)))
                                (blobKey (store v) ` set (members (take n gs))))"
proof -
  from identify_orgInv[OF assms] obtain oid V gs st where r:
    "identifyOrganismGroups v = v\<lparr>store := st, organismGroups := gs\<rparr>"
    "orgInv (int N) (blobsMap v) (store v) (blobs v) (blobs v) (oid, V, gs, st)"
    by blast
  note inv = r(2)[unfolded orgInv_def prod.case]
  have f1: "sameBlobs (store v) st" using inv by simp
  have f2: "distinct (members gs)"
  proof -
    have "distinct (map (blobKey (store v)) (members gs))" using inv by simp
    then show ?thesis by (simp only: distinct_map)
  qed
  have "set (members gs) \<subseteq> set (blobs v)" "set (blobs v) \<subseteq> set (members gs)"
    using inv by simp_all
  then have f3: "set (members gs) = set (blobs v)" by (rule equalityI)
  have f4: "map org_id gs = map int [0..<length gs]" using inv by simp
  have f5: "\<forall>g \<in> set gs. org_blobs g \<noteq> []" using inv by simp
  have f6: "subseq (map (\<lambda>g. hd (org_blobs g)) gs) (blobs v)" using inv by simp
  have f7: "\<forall>i < length gs. \<forall>b \<in> set (org_blobs (gs ! i)). organismId (st ! b) = int i"
    using inv by simp
  have f8: "\<forall>n \<le> length gs. closedUnder (int N) (blobsMap v) (store v) (set (members (take n gs)))
                                (blobKey (store v) ` set (members (take n gs)))"
    using inv by simp
  show ?thesis
    by (rule exI[of _ gs], rule exI[of _ st]) (intro conjI r(1) f1 f2 f3 f4 f5 f6 f7 f8)
qed


lemma blob_facts:
  assumes ok: "bookkeeping_ok N v" and c: "c \<in> set (blobs v)"
  shows "0 \<le> blob_x (store v ! c)" "blob_x (store v ! c) < int N"
    "0 \<le> blob_y (store v ! c)" "blob_y (store v ! c) < int N"
    "map_of (blobsMap v) (blobKey (store v) c) = Some c" "c < length (store v)"
proof -
  have "\<forall>c \<in> set (blobs v).
        c < length (store v) \<and>
        0 \<le> blob_x (store v ! c) \<and> blob_x (store v ! c) < int N \<and>
        0 \<le> blob_y (store v ! c) \<and> blob_y (store v ! c) < int N \<and>
        map_of (blobsMap v) (blobKey (store v) c) = Some c"
    using ok by (simp add: bookkeeping_ok_def)
  then have "c < length (store v) \<and>
        0 \<le> blob_x (store v ! c) \<and> blob_x (store v ! c) < int N \<and>
        0 \<le> blob_y (store v ! c) \<and> blob_y (store v ! c) < int N \<and>
        map_of (blobsMap v) (blobKey (store v) c) = Some c"
    using c by (rule bspec)
  then show "0 \<le> blob_x (store v ! c)" "blob_x (store v ! c) < int N"
    "0 \<le> blob_y (store v ! c)" "blob_y (store v ! c) < int N"
    "map_of (blobsMap v) (blobKey (store v) c) = Some c" "c < length (store v)"
    by simp_all
qed

lemma neighbour_below:
  assumes ok: "bookkeeping_ok N v"
    and c: "c \<in> set (blobs v)" and d: "d \<in> set (blobs v)"
    and cd: "torus_adjacent N (blobCell (store v) c) (blobCell (store v) d)"
    and sub: "set (members gs) = set (blobs v)"
    and cl: "\<forall>n \<le> length gs. closedUnder (int N) (blobsMap v) (store v) (set (members (take n gs)))
                                (blobKey (store v) ` set (members (take n gs)))"
    and i: "i < length gs" "c \<in> set (org_blobs (gs ! i))"
  shows "\<exists>j \<le> i. j < length gs \<and> d \<in> set (org_blobs (gs ! j))"
proof -
  let ?st = "store v"
  have N: "1 \<le> N" using ok by (simp add: bookkeeping_ok_def)
  note fc = blob_facts[OF ok c]
  from torus_adjacent_key[OF N cd[unfolded blobCell_def] fc(1) fc(3) fc(2) fc(4)]
  obtain off where off: "off \<in> set neighbourOffsets"
    "neighborKey (int N) (blob_x (?st ! c)) (blob_y (?st ! c)) off = blobKey ?st d"
    unfolding blobKey_def by (elim bexE)
  have "i < Suc i" by simp
  then have "\<exists>j < Suc i. j < length gs \<and> c \<in> set (org_blobs (gs ! j))" using i by blast
  then have cmem: "c \<in> set (members (take (Suc i) gs))" by (simp only: in_members_take)
  have "Suc i \<le> length gs" using i(1) by simp
  then have cu: "closedUnder (int N) (blobsMap v) ?st (set (members (take (Suc i) gs)))
                   (blobKey ?st ` set (members (take (Suc i) gs)))"
    using cl by blast
  have look: "map_of (blobsMap v) (neighborKey (int N) (blob_x (?st ! c)) (blob_y (?st ! c)) off) = Some d"
    using blob_facts(5)[OF ok d] by (simp only: off(2))
  have "neighborKey (int N) (blob_x (?st ! c)) (blob_y (?st ! c)) off
          \<in> blobKey ?st ` set (members (take (Suc i) gs))"
    by (rule cu[unfolded closedUnder_def, rule_format, OF cmem off(1) look])
  then have "blobKey ?st d \<in> blobKey ?st ` set (members (take (Suc i) gs))"
    by (simp only: off(2))
  then obtain d' where d': "d' \<in> set (members (take (Suc i) gs))" "blobKey ?st d = blobKey ?st d'"
    by (rule imageE)
  from d'(1) have "\<exists>j < Suc i. j < length gs \<and> d' \<in> set (org_blobs (gs ! j))"
    by (simp only: in_members_take)
  then obtain j where jj: "j < Suc i" "j < length gs" "d' \<in> set (org_blobs (gs ! j))"
    by blast
  then have "\<exists>j < length gs. d' \<in> set (org_blobs (gs ! j))" by blast
  then have "d' \<in> set (members gs)" by (simp only: in_members)
  then have d'b: "d' \<in> set (blobs v)" using sub by simp
  have "Some d = Some d'"
    using blob_facts(5)[OF ok d] blob_facts(5)[OF ok d'b] by (simp only: d'(2))
  then have "d' = d" by simp
  moreover have "j \<le> i" using jj(1) by simp
  ultimately show ?thesis using jj(2,3) by blast
qed

lemma same_organism:
  assumes ok: "bookkeeping_ok N v"
    and a: "a \<in> set (blobs v)" and b: "b \<in> set (blobs v)"
    and adj: "torus_adjacent N (blobCell (store v) a) (blobCell (store v) b)"
    and sub: "set (members gs) = set (blobs v)" and dist: "distinct (members gs)"
    and cl: "\<forall>n \<le> length gs. closedUnder (int N) (blobsMap v) (store v) (set (members (take n gs)))
                                (blobKey (store v) ` set (members (take n gs)))"
  shows "\<exists>i < length gs. a \<in> set (org_blobs (gs ! i)) \<and> b \<in> set (org_blobs (gs ! i))"
proof -
  let ?st = "store v"
  have dc: "distinct (concat (map org_blobs gs))" using dist by (simp only: members_def)
  have lens: "length (map org_blobs gs) = length gs" by simp
  have "a \<in> set (members gs)" using a sub by simp
  then have "\<exists>i < length gs. a \<in> set (org_blobs (gs ! i))" by (simp only: in_members)
  then obtain i where i: "i < length gs" "a \<in> set (org_blobs (gs ! i))" by blast
  have "b \<in> set (members gs)" using b sub by simp
  then have "\<exists>j < length gs. b \<in> set (org_blobs (gs ! j))" by (simp only: in_members)
  then obtain j where j: "j < length gs" "b \<in> set (org_blobs (gs ! j))" by blast
  note fa = blob_facts[OF ok a]
  have adj': "torus_adjacent N (blobCell ?st b) (blobCell ?st a)"
    unfolding blobCell_def
    by (rule torus_adjacent_sym[OF adj[unfolded blobCell_def] fa(1) fa(2) fa(3) fa(4)])
  from neighbour_below[OF ok a b adj sub cl i]
  obtain j' where j': "j' \<le> i" "j' < length gs" "b \<in> set (org_blobs (gs ! j'))" by blast
  from neighbour_below[OF ok b a adj' sub cl j]
  obtain i' where i': "i' \<le> j" "i' < length gs" "a \<in> set (org_blobs (gs ! i'))" by blast
  have "j' = j"
    by (rule concat_index_unique[OF dc, of j' j b]) (simp_all add: j j')
  moreover have "i' = i"
    by (rule concat_index_unique[OF dc, of i' i a]) (simp_all add: i i')
  ultimately have "i = j" using j'(1) i'(1) by simp
  then show ?thesis using i j by blast
qed

section \<open>The keys of cells\<close>

lemma digit_char_inj:
  assumes "a < 10" "b < 10" "digit_char a = digit_char b"
  shows "a = b"
proof -
  have a: "a \<in> {0, 1, 2, 3, 4, 5, 6, 7, 8, 9}" and b: "b \<in> {0, 1, 2, 3, 4, 5, 6, 7, 8, 9}"
    using assms(1,2) by auto
  show ?thesis using a b assms(3) by (auto simp: digit_char_def)
qed

lemma digit_char_not_sep:
  assumes "a < 10"
  shows "digit_char a \<noteq> CHR '',''" "digit_char a \<noteq> CHR ''-''"
proof -
  have a: "a \<in> {0, 1, 2, 3, 4, 5, 6, 7, 8, 9}" using assms by auto
  show "digit_char a \<noteq> CHR '',''" "digit_char a \<noteq> CHR ''-''"
    using a by (auto simp: digit_char_def)
qed

lemma nat_digits_small: "n < 10 \<Longrightarrow> nat_digits n = [digit_char n]"
  by (simp add: nat_digits.simps[of n])

lemma nat_digits_large:
  "\<not> n < 10 \<Longrightarrow> nat_digits n = nat_digits (n div 10) @ [digit_char (n mod 10)]"
  by (simp add: nat_digits.simps[of n])

lemma nat_digits_nonempty: "nat_digits n \<noteq> []"
  by (cases "n < 10") (simp_all add: nat_digits_small nat_digits_large)

lemma nat_digits_chars: "c \<in> set (nat_digits n) \<Longrightarrow> c \<noteq> CHR '','' \<and> c \<noteq> CHR ''-''"
proof (induction n rule: nat_digits.induct)
  case (1 n)
  show ?case
  proof (cases "n < 10")
    case True
    then show ?thesis using "1.prems" digit_char_not_sep[of n] by (simp add: nat_digits_small)
  next
    case False
    have "n mod 10 < 10" by simp
    then show ?thesis
      using "1.prems" "1.IH"[OF False] False digit_char_not_sep[of "n mod 10"]
      by (auto simp: nat_digits_large)
  qed
qed

lemma nat_digits_length2:
  assumes "\<not> n < 10"
  shows "2 \<le> length (nat_digits n)"
proof -
  have "nat_digits n = nat_digits (n div 10) @ [digit_char (n mod 10)]"
    using assms by (rule nat_digits_large)
  then have "length (nat_digits n) = length (nat_digits (n div 10)) + 1" by simp
  moreover have "nat_digits (n div 10) \<noteq> []" by (rule nat_digits_nonempty)
  ultimately show ?thesis by (cases "nat_digits (n div 10)") simp_all
qed

lemma nat_digits_inj: "nat_digits n = nat_digits m \<Longrightarrow> n = m"
proof (induction n arbitrary: m rule: nat_digits.induct)
  case (1 n)
  show ?case
  proof (cases "n < 10")
    case n: True
    show ?thesis
    proof (cases "m < 10")
      case True
      have "[digit_char n] = [digit_char m]"
        using "1.prems" by (simp only: nat_digits_small[OF n] nat_digits_small[OF True])
      then have "digit_char n = digit_char m" by simp
      then show ?thesis by (rule digit_char_inj[OF n True])
    next
      case False
      have "length (nat_digits n) = 1" by (simp add: nat_digits_small[OF n])
      then show ?thesis using nat_digits_length2[OF False] "1.prems" by simp
    qed
  next
    case n: False
    show ?thesis
    proof (cases "m < 10")
      case True
      have "length (nat_digits m) = 1" by (simp add: nat_digits_small[OF True])
      then show ?thesis using nat_digits_length2[OF n] "1.prems" by simp
    next
      case False
      have "nat_digits (n div 10) @ [digit_char (n mod 10)]
              = nat_digits (m div 10) @ [digit_char (m mod 10)]"
        using "1.prems" by (simp only: nat_digits_large[OF n] nat_digits_large[OF False])
      then have eq: "nat_digits (n div 10) = nat_digits (m div 10)"
        "digit_char (n mod 10) = digit_char (m mod 10)"
        by simp_all
      have d: "n div 10 = m div 10" using "1.IH"[OF n eq(1)] .
      have "n mod 10 < 10" "m mod 10 < 10" by simp_all
      then have r: "n mod 10 = m mod 10" using eq(2) by (rule digit_char_inj)
      have "n = 10 * (n div 10) + n mod 10" by simp
      also have "\<dots> = 10 * (m div 10) + m mod 10" by (simp only: d r)
      also have "\<dots> = m" by simp
      finally show ?thesis .
    qed
  qed
qed

lemma js_string_Num_inj: "js_string (Num a) = js_string (Num b) \<Longrightarrow> a = b"
proof -
  assume eq: "js_string (Num a) = js_string (Num b)"
  have hd_digit: "hd (nat_digits k) \<noteq> CHR ''-''" for k
    using nat_digits_chars[of "hd (nat_digits k)" k] nat_digits_nonempty[of k] by simp
  show ?thesis
  proof (cases "a < 0")
    case a: True
    show ?thesis
    proof (cases "b < 0")
      case True
      then have "nat (- a) = nat (- b)" using eq a nat_digits_inj by simp
      then show ?thesis using a True by simp
    next
      case False
      then have "CHR ''-'' = hd (nat_digits (nat b))" using eq a by (metis js_string.simps(1) list.sel(1))
      then show ?thesis using hd_digit[of "nat b"] by simp
    qed
  next
    case a: False
    show ?thesis
    proof (cases "b < 0")
      case True
      then have "hd (nat_digits (nat a)) = CHR ''-''" using eq a by (metis js_string.simps(1) list.sel(1))
      then show ?thesis using hd_digit[of "nat a"] by simp
    next
      case False
      then have "nat a = nat b" using eq a nat_digits_inj by simp
      then show ?thesis using a False by simp
    qed
  qed
qed

lemma js_string_Num_no_comma: "CHR '','' \<notin> set (js_string (Num a))"
  using nat_digits_chars by (auto split: if_splits)

lemma split_at_sep:
  assumes "xs @ c # ys = xs' @ c # ys'" "c \<notin> set xs" "c \<notin> set xs'"
  shows "xs = xs' \<and> ys = ys'"
  using assms
proof (induction xs arbitrary: xs')
  case Nil
  then show ?case by (cases xs') auto
next
  case (Cons x xs)
  then show ?case by (cases xs') auto
qed

lemma key_inj: "key (Num a) (Num b) = key (Num c) (Num d) \<Longrightarrow> a = c \<and> b = d"
  unfolding key_def
  using split_at_sep[of "js_string (Num a)" "CHR '',''" "js_string (Num b)" "js_string (Num c)" "js_string (Num d)"]
    js_string_Num_no_comma js_string_Num_inj
  by blast

section \<open>The preparation of a transition\<close>

lemma prepareCell_step:
  assumes "square_grid N cur" "square_grid N nxt" "0 \<le> y" "y < int N" "0 \<le> x" "x < int N"
  shows "\<exists>ch' st''. prepareCell cur nxt bm y x (ch, st') = Inr (ch', st'') \<and>
           ((st'' = st' \<and> newBlobs ch' = newBlobs ch \<and>
             (\<forall>b \<in> set (blobsToRemove ch'). b \<in> set (blobsToRemove ch) \<or> (\<exists>k. map_of bm k = Some b))) \<or>
            (st'' = st' @ [\<lparr>blob_x = x, blob_y = y, organismId = - 1, isNew = True, visible = False\<rparr>] \<and>
             newBlobs ch' = newBlobs ch @ [length st'] \<and> blobsToRemove ch' = blobsToRemove ch))"
proof -
  have c: "js_index2 cur (Num y) (Num x) = Inr (Num (cur ! nat y ! nat x))"
    and n: "js_index2 nxt (Num y) (Num x) = Inr (Num (nxt ! nat y ! nat x))"
    using js_index2_square[OF assms(1) assms(3-6)] js_index2_square[OF assms(2) assms(3-6)]
    by simp_all
  show ?thesis
  proof (cases "map_of bm (key (Num x) (Num y))")
    case None
    then show ?thesis by (simp add: prepareCell_def c n createBlob_def)
  next
    case (Some b)
    then show ?thesis by (auto simp: prepareCell_def c n createBlob_def)
  qed
qed

lemma prepInv_keep:
  assumes "prepInv st bm ps ch st'" "newBlobs ch' = newBlobs ch"
    and "\<forall>b \<in> set (blobsToRemove ch'). b \<in> set (blobsToRemove ch) \<or> (\<exists>k. map_of bm k = Some b)"
  shows "prepInv st bm (ps @ [p]) ch' st'"
  using assms unfolding prepInv_def by auto

lemma prepInv_appear:
  assumes inv: "prepInv st bm ps ch st'" and p: "(y, x) \<notin> set ps"
    and nb: "newBlobs ch' = newBlobs ch @ [length st']" and rm: "blobsToRemove ch' = blobsToRemove ch"
  shows "prepInv st bm (ps @ [(y, x)]) ch'
           (st' @ [\<lparr>blob_x = x, blob_y = y, organismId = - 1, isNew = True, visible = False\<rparr>])"
proof -
  let ?nb = "\<lparr>blob_x = x, blob_y = y, organismId = - 1, isNew = True, visible = False\<rparr>"
  let ?st = "st' @ [?nb]"
  note i = inv[unfolded prepInv_def]
  have len: "length st \<le> length st'" using i by simp
  have old: "?st ! b = st' ! b" if "b \<in> set (newBlobs ch)" for b
    using that i by (simp add: nth_append)
  have 1: "length st \<le> length ?st" using len by simp
  have 2: "take (length st) ?st = st" using i by simp
  have 3: "newBlobs ch' = [length st..<length ?st]" using i len nb by simp
  have 4: "\<forall>b \<in> set (newBlobs ch'). \<not> visible (?st ! b) \<and> (blob_y (?st ! b), blob_x (?st ! b)) \<in> set (ps @ [(y, x)])"
  proof
    fix b assume "b \<in> set (newBlobs ch')"
    then consider "b \<in> set (newBlobs ch)" | "b = length st'" using nb by auto
    then show "\<not> visible (?st ! b) \<and> (blob_y (?st ! b), blob_x (?st ! b)) \<in> set (ps @ [(y, x)])"
    proof cases
      case 1
      then show ?thesis using old[OF 1] i by simp
    next
      case 2
      then show ?thesis by simp
    qed
  qed
  have cells: "map (blobCell ?st) (newBlobs ch) = map (blobCell st') (newBlobs ch)"
    by (rule map_cong[OF refl]) (simp add: blobCell_def old)
  have newcell: "blobCell ?st (length st') = (x, y)" by (simp add: blobCell_def)
  have nm: "(x, y) \<notin> set (map (blobCell st') (newBlobs ch))"
  proof
    assume "(x, y) \<in> set (map (blobCell st') (newBlobs ch))"
    then obtain b where b: "b \<in> set (newBlobs ch)" "blobCell st' b = (x, y)" by auto
    then have "(blob_y (st' ! b), blob_x (st' ! b)) \<in> set ps" using i by simp
    then show False using b(2) p by (simp add: blobCell_def)
  qed
  have d0: "distinct (map (blobCell st') (newBlobs ch))" using i by blast
  have "map (blobCell ?st) (newBlobs ch') = map (blobCell ?st) (newBlobs ch) @ [blobCell ?st (length st')]"
    by (simp only: nb map_append list.map)
  then have m: "map (blobCell ?st) (newBlobs ch') = map (blobCell st') (newBlobs ch) @ [(x, y)]"
    by (simp only: cells newcell)
  have 5: "distinct (map (blobCell ?st) (newBlobs ch'))"
    unfolding m using d0 nm by simp
  have 6: "\<forall>b \<in> set (blobsToRemove ch'). \<exists>k. map_of bm k = Some b" using i rm by simp
  show ?thesis unfolding prepInv_def using 1 2 3 4 5 6 by blast
qed

lemma prepare_fold_inv:
  assumes sq: "square_grid N cur" "square_grid N nxt"
  shows "distinct ps \<Longrightarrow> \<forall>p \<in> set ps. 0 \<le> fst p \<and> fst p < int N \<and> 0 \<le> snd p \<and> snd p < int N \<Longrightarrow>
     \<exists>ch st'. for_fold (\<lambda>p. prepareCell cur nxt bm (fst p) (snd p)) ps (noChanges, st) = Inr (ch, st') \<and>
       prepInv st bm ps ch st'"
proof (induction ps rule: rev_induct)
  case Nil
  show ?case by (simp add: prepInv_def noChanges_def)
next
  case (snoc p ps)
  obtain y x where p: "p = (y, x)" by (cases p)
  have r: "0 \<le> y" "y < int N" "0 \<le> x" "x < int N" and notin: "(y, x) \<notin> set ps"
    using snoc.prems p by simp_all
  from snoc.IH snoc.prems obtain ch st' where ih:
    "for_fold (\<lambda>p. prepareCell cur nxt bm (fst p) (snd p)) ps (noChanges, st) = Inr (ch, st')"
    "prepInv st bm ps ch st'"
    by auto
  from prepareCell_step[OF sq r, of bm ch st'] obtain ch' st'' where s:
    "prepareCell cur nxt bm y x (ch, st') = Inr (ch', st'')"
    "(st'' = st' \<and> newBlobs ch' = newBlobs ch \<and>
       (\<forall>b \<in> set (blobsToRemove ch'). b \<in> set (blobsToRemove ch) \<or> (\<exists>k. map_of bm k = Some b))) \<or>
     (st'' = st' @ [\<lparr>blob_x = x, blob_y = y, organismId = - 1, isNew = True, visible = False\<rparr>] \<and>
       newBlobs ch' = newBlobs ch @ [length st'] \<and> blobsToRemove ch' = blobsToRemove ch)"
    by blast
  have run: "for_fold (\<lambda>p. prepareCell cur nxt bm (fst p) (snd p)) (ps @ [p]) (noChanges, st) = Inr (ch', st'')"
    using ih(1) s(1) p by (simp add: for_fold_snoc)
  from s(2) have "prepInv st bm (ps @ [p]) ch' st''"
  proof
    assume a: "st'' = st' \<and> newBlobs ch' = newBlobs ch \<and>
       (\<forall>b \<in> set (blobsToRemove ch'). b \<in> set (blobsToRemove ch) \<or> (\<exists>k. map_of bm k = Some b))"
    then show ?thesis using prepInv_keep[OF ih(2), of ch' p] by simp
  next
    assume a: "st'' = st' @ [\<lparr>blob_x = x, blob_y = y, organismId = - 1, isNew = True, visible = False\<rparr>] \<and>
       newBlobs ch' = newBlobs ch @ [length st'] \<and> blobsToRemove ch' = blobsToRemove ch"
    then show ?thesis using prepInv_appear[OF ih(2) notin, of ch'] p by simp
  qed
  then show ?case using run by blast
qed

lemma prepare_spec:
  assumes "square_grid N cur" "square_grid N nxt" "game_size (game v) = int N" "\<not> isAnimating v"
  shows "\<exists>ch st'. prepareNextGeneration v cur nxt = Inr (True, v\<lparr>store := st', pendingChanges := Some ch\<rparr>) \<and>
           prepInv (store v) (blobsMap v) (List.product (upto_size (int N)) (upto_size (int N))) ch st'"
proof -
  let ?ps = "List.product (upto_size (int N)) (upto_size (int N))"
  have d: "distinct ?ps" by (simp add: distinct_product upto_size_def distinct_map)
  have r: "\<forall>p \<in> set ?ps. 0 \<le> fst p \<and> fst p < int N \<and> 0 \<le> snd p \<and> snd p < int N"
    by (auto simp: upto_size_def)
  from prepare_fold_inv[OF assms(1,2) d r, of "blobsMap v" "store v"] obtain ch st' where f:
    "for_fold (\<lambda>p. prepareCell cur nxt (blobsMap v) (fst p) (snd p)) ?ps (noChanges, store v) = Inr (ch, st')"
    "prepInv (store v) (blobsMap v) ?ps ch st'"
    by blast
  have "prepareNextGeneration v cur nxt = Inr (True, v\<lparr>store := st', pendingChanges := Some ch\<rparr>)"
    using f(1) assms(3,4) by (simp add: prepareNextGeneration_def for_fold_nested)
  then show ?thesis using f(2) by blast
qed

section \<open>The collections in the first continuation\<close>

lemma removeBlobs_blobs: "blobs (foldl removeBlob v rs) = filter (\<lambda>b. b \<notin> set rs) (blobs v)"
proof (induction rs arbitrary: v)
  case Nil
  show ?case by simp
next
  case (Cons r rs)
  have step: "blobs (removeBlob v r) = filter (\<lambda>b'. b' \<noteq> r) (blobs v)"
    by (simp add: removeBlob_def)
  have "blobs (foldl removeBlob v (r # rs)) = filter (\<lambda>b. b \<notin> set rs) (blobs (removeBlob v r))"
    using Cons.IH[of "removeBlob v r"] by simp
  also have "\<dots> = filter (\<lambda>b. b \<notin> set (r # rs)) (blobs v)"
    unfolding step by (induction "blobs v") auto
  finally show ?case .
qed

lemma removeBlob_map:
  "map_of (blobsMap (removeBlob v r)) k = (if k = blobKey (store v) r then None else map_of (blobsMap v) k)"
  by (simp add: removeBlob_def delete_conv')

lemma removeBlob_store: "store (removeBlob v r) = store v"
  by (simp add: removeBlob_def)

lemma removeBlobs_map:
  "map_of (blobsMap (foldl removeBlob v rs)) k
     = (if k \<in> blobKey (store v) ` set rs then None else map_of (blobsMap v) k)"
proof (induction rs arbitrary: v)
  case Nil
  show ?case by simp
next
  case (Cons r rs)
  show ?case using Cons.IH[of "removeBlob v r"] by (auto simp: removeBlob_store removeBlob_map)
qed

lemma addBlobs_blobs: "blobs (foldl addBlob v ns) = blobs v @ ns"
  by (induction ns arbitrary: v) (simp_all add: addBlob_def)

lemma addBlob_map:
  "map_of (blobsMap (addBlob v n)) k = (if k = blobKey (store v) n then Some n else map_of (blobsMap v) k)"
  by (simp add: addBlob_def update_conv')

lemma addBlob_store: "store (addBlob v n) = store v"
  by (simp add: addBlob_def)

lemma addBlobs_map_other:
  "k \<notin> blobKey (store v) ` set ns \<Longrightarrow> map_of (blobsMap (foldl addBlob v ns)) k = map_of (blobsMap v) k"
proof (induction ns arbitrary: v)
  case Nil
  show ?case by simp
next
  case (Cons n ns)
  then show ?case using Cons.IH[of "addBlob v n"] by (simp add: addBlob_store addBlob_map)
qed

lemma addBlobs_map_new:
  "distinct (map (blobKey (store v)) ns) \<Longrightarrow> b \<in> set ns
     \<Longrightarrow> map_of (blobsMap (foldl addBlob v ns)) (blobKey (store v) b) = Some b"
proof (induction ns arbitrary: v)
  case Nil
  then show ?case by simp
next
  case (Cons n ns)
  show ?case
  proof (cases "b = n")
    case True
    have "blobKey (store v) n \<notin> blobKey (store (addBlob v n)) ` set ns"
      using Cons.prems(1) by (simp add: addBlob_store)
    from addBlobs_map_other[OF this] show ?thesis using True by (simp add: addBlob_map)
  next
    case False
    then have "b \<in> set ns" using Cons.prems(2) by simp
    moreover have "distinct (map (blobKey (store (addBlob v n))) ns)"
      using Cons.prems(1) by (simp add: addBlob_store)
    ultimately show ?thesis using Cons.IH[of "addBlob v n"] by (simp add: addBlob_store)
  qed
qed

lemma addBlobs_map_range:
  "map_of (blobsMap (foldl addBlob v ns)) k = Some b \<Longrightarrow> b \<in> set ns \<or> map_of (blobsMap v) k = Some b"
proof (induction ns arbitrary: v)
  case Nil
  then show ?case by simp
next
  case (Cons n ns)
  from Cons.IH[of "addBlob v n"] Cons.prems
  have "b \<in> set ns \<or> map_of (blobsMap (addBlob v n)) k = Some b" by simp
  then show ?case by (auto simp: addBlob_map split: if_splits)
qed

lemma bfs_sameBlobs: "sameBlobs st (snd (snd (bfs sz bm oid q V m st)))"
proof (induction sz bm oid q V m st rule: bfs.induct)
  case (1 sz bm oid V m st)
  show ?case by simp
next
  case (2 sz bm oid c rest V m st)
  have "sameBlobs st (st[c := (st ! c)\<lparr>organismId := oid\<rparr>])" by (rule sameBlobs_setId)
  from sameBlobs_trans[OF this "2.IH"[OF refl refl refl]] show ?case by (simp add: Let_def)
qed

lemma organismsLoop_sameBlobs:
  "sameBlobs (snd (snd (snd acc))) (snd (snd (snd (organismsLoop sz bm bs acc))))"
proof (induction bs arbitrary: acc)
  case Nil
  show ?case by simp
next
  case (Cons b bs)
  obtain oid V gs st where acc: "acc = (oid, V, gs, st)" by (cases acc)
  show ?case
  proof (cases "blobKey st b \<in> V")
    case True
    then show ?thesis using Cons.IH[of acc] by (simp add: acc)
  next
    case False
    obtain V' m' st' where r: "bfs sz bm oid [b] (insert (blobKey st b) V) [] st = (V', m', st')"
      by (cases "bfs sz bm oid [b] (insert (blobKey st b) V) [] st")
    have 1: "sameBlobs st st'" using bfs_sameBlobs[of st sz bm oid "[b]" "insert (blobKey st b) V" "[]"] r by simp
    let ?acc = "(oid + 1, V', gs @ [\<lparr>org_id = oid, org_blobs = m', org_color = js_rem oid 6\<rparr>], st')"
    have 2: "sameBlobs st' (snd (snd (snd (organismsLoop sz bm bs ?acc))))"
      using Cons.IH[of ?acc] by simp
    show ?thesis using sameBlobs_trans[OF 1 2] False r by (simp add: acc)
  qed
qed

lemma identify_sameBlobs: "sameBlobs (store v) (store (identifyOrganismGroups v))"
proof -
  obtain oid V gs st where r:
    "organismsLoop (game_size (game v)) (blobsMap v) (blobs v) (0, {}, [], store v) = (oid, V, gs, st)"
    by (cases "organismsLoop (game_size (game v)) (blobsMap v) (blobs v) (0, {}, [], store v)")
  have "sameBlobs (store v) st"
    using organismsLoop_sameBlobs[of "(0, {}, [], store v)" "game_size (game v)" "blobsMap v" "blobs v"] r
    by simp
  then show ?thesis using r by (simp add: identifyOrganismGroups_def)
qed

lemma showBlobs_store:
  "length (store (foldl showBlob v ns)) = length (store v) \<and>
   (visible (store (foldl showBlob v ns) ! b)
      \<longleftrightarrow> visible (store v ! b) \<or> (b \<in> set ns \<and> b < length (store v)))"
proof (induction ns arbitrary: v)
  case Nil
  show ?case by simp
next
  case (Cons n ns)
  have l: "length (store (showBlob v n)) = length (store v)" by (simp add: showBlob_def)
  have vis: "visible (store (showBlob v n) ! b) \<longleftrightarrow> visible (store v ! b) \<or> (b = n \<and> b < length (store v))"
    by (cases "n < length (store v)") (auto simp: showBlob_def nth_list_update list_update_beyond)
  show ?case using Cons.IH[of "showBlob v n"] by (auto simp: l vis)
qed

lemma prepInv_keys:
  assumes "prepInv st bm ps ch st'"
  shows "distinct (map (blobKey st') (newBlobs ch))"
proof -
  have d: "distinct (map (blobCell st') (newBlobs ch))" using assms unfolding prepInv_def by blast
  have "inj_on (blobKey st') (set (newBlobs ch))"
  proof (rule inj_onI)
    fix a b assume ab: "a \<in> set (newBlobs ch)" "b \<in> set (newBlobs ch)" "blobKey st' a = blobKey st' b"
    from key_inj[OF ab(3)[unfolded blobKey_def]] have "blobCell st' a = blobCell st' b"
      by (simp add: blobCell_def)
    then show "a = b" using d ab(1,2) by (simp add: distinct_map inj_on_def)
  qed
  then show ?thesis using d by (simp add: distinct_map)
qed

section \<open>The construction of the blobs\<close>

lemma update_fresh: "k \<notin> fst ` set al \<Longrightarrow> AList.update k v al = al @ [(k, v)]"
  by (induction al) auto

lemma createInv_skip:
  assumes "createInv grid v0 ps v" "grid ! nat y ! nat x \<noteq> 1"
  shows "createInv grid v0 (ps @ [(y, x)]) v"
proof -
  have e: "{(x', y'). (y', x') \<in> set (ps @ [(y, x)]) \<and> grid ! nat y' ! nat x' = 1}
      = {(x', y'). (y', x') \<in> set ps \<and> grid ! nat y' ! nat x' = 1}"
    using assms(2) by auto
  show ?thesis using assms(1) unfolding createInv_def e by blast
qed

lemma createInv_add:
  assumes inv: "createInv grid v0 ps v" and p: "(y, x) \<notin> set ps" and live: "grid ! nat y ! nat x = 1"
  shows "createInv grid v0 (ps @ [(y, x)])
           (v\<lparr>store := store v @ [\<lparr>blob_x = x, blob_y = y, organismId = - 1, isNew = False, visible = True\<rparr>],
              blobs := blobs v @ [length (store v)],
              blobsMap := AList.update (key (Num x) (Num y)) (length (store v)) (blobsMap v)\<rparr>)"
proof -
  let ?nb = "\<lparr>blob_x = x, blob_y = y, organismId = - 1, isNew = False, visible = True\<rparr>"
  let ?st = "store v @ [?nb]"
  let ?b = "length (store v)"
  note i = inv[unfolded createInv_def]
  have i1: "game v = game v0" "organismGroups v = organismGroups v0"
    "pendingChanges v = pendingChanges v0" "isAnimating v = isAnimating v0"
    using i by blast+
  have i2: "length (store v0) \<le> length (store v)" using i by blast
  have i3: "blobs v = [length (store v0)..<length (store v)]" using i by blast
  have i4: "blobsMap v = map (\<lambda>b. (blobKey (store v) b, b)) (blobs v)" using i by blast
  have i5: "distinct (map (blobCell (store v)) (blobs v))" using i by blast
  have i6: "blobCell (store v) ` set (blobs v) = {(x, y). (y, x) \<in> set ps \<and> grid ! nat y ! nat x = 1}"
    using i by blast
  have old: "?st ! b = store v ! b" if "b \<in> set (blobs v)" for b
    using that i3 by (simp add: nth_append)
  have oldcell: "blobCell ?st b = blobCell (store v) b" if "b \<in> set (blobs v)" for b
    using old[OF that] by (simp add: blobCell_def)
  have oldkey: "blobKey ?st b = blobKey (store v) b" if "b \<in> set (blobs v)" for b
    using old[OF that] by (simp add: blobKey_def)
  have newcell: "blobCell ?st ?b = (x, y)" by (simp add: blobCell_def)
  have newkey: "blobKey ?st ?b = key (Num x) (Num y)" by (simp add: blobKey_def)
  have notcell: "(x, y) \<notin> blobCell (store v) ` set (blobs v)" using i6 p by simp
  have "key (Num x) (Num y) \<notin> fst ` set (blobsMap v)"
  proof
    assume "key (Num x) (Num y) \<in> fst ` set (blobsMap v)"
    then obtain b where b: "b \<in> set (blobs v)" "key (Num x) (Num y) = blobKey (store v) b"
      unfolding i4 by auto
    from key_inj[OF b(2)[unfolded blobKey_def]] have "blobCell (store v) b = (x, y)"
      by (simp add: blobCell_def)
    then show False using notcell b(1) by force
  qed
  then have upd: "AList.update (key (Num x) (Num y)) ?b (blobsMap v) = blobsMap v @ [(key (Num x) (Num y), ?b)]"
    by (rule update_fresh)
  have m1: "map (\<lambda>b. (blobKey ?st b, b)) (blobs v) = map (\<lambda>b. (blobKey (store v) b, b)) (blobs v)"
    by (rule map_cong[OF refl]) (simp add: oldkey)
  have c1: "map (blobCell ?st) (blobs v) = map (blobCell (store v)) (blobs v)"
    by (rule map_cong[OF refl]) (simp add: oldcell)
  have 1: "blobs v @ [?b] = [length (store v0)..<length ?st]" using i2 i3 by simp
  have 2: "blobsMap v @ [(key (Num x) (Num y), ?b)] = map (\<lambda>b. (blobKey ?st b, b)) (blobs v @ [?b])"
    using i4 m1 newkey by simp
  have 3: "distinct (map (blobCell ?st) (blobs v @ [?b]))"
    using i5 notcell by (simp add: c1 newcell)
  have "set (map (blobCell ?st) (blobs v)) = set (map (blobCell (store v)) (blobs v))"
    by (simp only: c1)
  then have "blobCell ?st ` set (blobs v) = blobCell (store v) ` set (blobs v)"
    by (simp only: set_map)
  then have "blobCell ?st ` set (blobs v @ [?b]) = insert (x, y) (blobCell (store v) ` set (blobs v))"
    using newcell by simp
  also have "\<dots> = {(x', y'). (y', x') \<in> set (ps @ [(y, x)]) \<and> grid ! nat y' ! nat x' = 1}"
    using i6 live by auto
  finally have 4: "blobCell ?st ` set (blobs v @ [?b])
      = {(x', y'). (y', x') \<in> set (ps @ [(y, x)]) \<and> grid ! nat y' ! nat x' = 1}" .
  have 5: "length (store v0) \<le> length ?st" using i2 by simp
  show ?thesis
    unfolding createInv_def upd
    using i1 1 2 3 4 5 by simp
qed


lemma createBlobAt_step:
  assumes "square_grid N grid" "0 \<le> y" "y < int N" "0 \<le> x" "x < int N"
  shows "createBlobAt grid y x v =
    Inr (if grid ! nat y ! nat x = 1
         then v\<lparr>store := store v @ [\<lparr>blob_x = x, blob_y = y, organismId = - 1, isNew = False, visible = True\<rparr>],
                blobs := blobs v @ [length (store v)],
                blobsMap := AList.update (key (Num x) (Num y)) (length (store v)) (blobsMap v)\<rparr>
         else v)"
  using js_index2_square[OF assms]
  by (simp add: createBlobAt_def createBlob_def)

lemma create_fold_inv:
  assumes sq: "square_grid N grid" and empty: "blobs v0 = []" "blobsMap v0 = []"
  shows "distinct ps \<Longrightarrow> \<forall>p \<in> set ps. 0 \<le> fst p \<and> fst p < int N \<and> 0 \<le> snd p \<and> snd p < int N \<Longrightarrow>
     \<exists>v. for_fold (\<lambda>p. createBlobAt grid (fst p) (snd p)) ps v0 = Inr v \<and> createInv grid v0 ps v"
proof (induction ps rule: rev_induct)
  case Nil
  show ?case using empty by (simp add: createInv_def)
next
  case (snoc p ps)
  obtain y x where p: "p = (y, x)" by (cases p)
  have r: "0 \<le> y" "y < int N" "0 \<le> x" "x < int N" and notin: "(y, x) \<notin> set ps"
    using snoc.prems p by simp_all
  from snoc.IH snoc.prems obtain v where ih:
    "for_fold (\<lambda>p. createBlobAt grid (fst p) (snd p)) ps v0 = Inr v" "createInv grid v0 ps v"
    by auto
  let ?v = "if grid ! nat y ! nat x = 1
         then v\<lparr>store := store v @ [\<lparr>blob_x = x, blob_y = y, organismId = - 1, isNew = False, visible = True\<rparr>],
                blobs := blobs v @ [length (store v)],
                blobsMap := AList.update (key (Num x) (Num y)) (length (store v)) (blobsMap v)\<rparr>
         else v"
  have run: "for_fold (\<lambda>p. createBlobAt grid (fst p) (snd p)) (ps @ [p]) v0 = Inr ?v"
    using ih(1) createBlobAt_step[OF sq r, of v] p by (simp add: for_fold_snoc)
  have "createInv grid v0 (ps @ [p]) ?v"
  proof (cases "grid ! nat y ! nat x = 1")
    case True
    then show ?thesis using createInv_add[OF ih(2) notin True] p by simp
  next
    case False
    then show ?thesis using createInv_skip[OF ih(2) False] p by simp
  qed
  then show ?case using run by blast
qed

lemma bookkeeping_ok_identify:
  assumes "bookkeeping_ok N v"
  shows "bookkeeping_ok N (identifyOrganismGroups v)"
proof -
  have s: "sameBlobs (store v) (store (identifyOrganismGroups v))" by (rule identify_sameBlobs)
  have k: "blobKey (store (identifyOrganismGroups v)) = blobKey (store v)"
    using s by (rule sameBlobs_blobKey)
  have l: "length (store (identifyOrganismGroups v)) = length (store v)"
    and c: "\<And>i. blob_x (store (identifyOrganismGroups v) ! i) = blob_x (store v ! i)"
      "\<And>i. blob_y (store (identifyOrganismGroups v) ! i) = blob_y (store v ! i)"
    using s by (simp_all add: sameBlobs_def)
  show ?thesis using assms unfolding bookkeeping_ok_def by (simp add: k l c)
qed

lemma set_upto_size: "set (upto_size (int N)) = {i. 0 \<le> i \<and> i < int N}"
proof (intro set_eqI iffI)
  fix i assume "i \<in> set (upto_size (int N))"
  then show "i \<in> {i. 0 \<le> i \<and> i < int N}" by (auto simp: upto_size_def)
next
  fix i assume "i \<in> {i. 0 \<le> i \<and> i < int N}"
  then have i: "0 \<le> i" "i < int N" by simp_all
  then have "nat i < N" by linarith
  moreover have "int (nat i) = i" using i(1) by simp
  ultimately have "i \<in> int ` {0..<N}" by (metis atLeastLessThan_iff image_eqI zero_le)
  then show "i \<in> set (upto_size (int N))" by (simp add: upto_size_def)
qed

lemma mem_cells:
  "(y, x) \<in> set (List.product (upto_size (int N)) (upto_size (int N)))
     \<longleftrightarrow> 0 \<le> y \<and> y < int N \<and> 0 \<le> x \<and> x < int N"
  by (simp add: set_upto_size)

lemma distinct_cells: "distinct (List.product (upto_size (int N)) (upto_size (int N)))"
  by (simp add: distinct_product upto_size_def distinct_map)

lemma createInv_bookkeeping:
  assumes inv: "createInv grid v0 (List.product (upto_size (int N)) (upto_size (int N))) u"
    and N: "1 \<le> N" and sz: "game_size (game v0) = int N"
  shows "bookkeeping_ok N u"
proof -
  let ?ps = "List.product (upto_size (int N)) (upto_size (int N))"
  note i = inv[unfolded createInv_def]
  have g: "game u = game v0" using i by blast
  have bl: "blobs u = [length (store v0)..<length (store u)]" using i by blast
  have bm: "blobsMap u = map (\<lambda>b. (blobKey (store u) b, b)) (blobs u)" using i by blast
  have dc: "distinct (map (blobCell (store u)) (blobs u))" using i by blast
  have cells: "blobCell (store u) ` set (blobs u) = {(x, y). (y, x) \<in> set ?ps \<and> grid ! nat y ! nat x = 1}"
    using i by blast
  have db: "distinct (blobs u)" by (simp only: bl distinct_upt)
  have inj: "a = b" if ab: "a \<in> set (blobs u)" "b \<in> set (blobs u)" "blobKey (store u) a = blobKey (store u) b" for a b
  proof -
    from key_inj[OF ab(3)[unfolded blobKey_def]] have "blobCell (store u) a = blobCell (store u) b"
      by (simp add: blobCell_def)
    moreover have "inj_on (blobCell (store u)) (set (blobs u))" using dc by (simp only: distinct_map)
    ultimately show ?thesis using ab(1,2) by (simp add: inj_on_def)
  qed
  have "inj_on (blobKey (store u)) (set (blobs u))" by (rule inj_onI) (rule inj)
  then have "distinct (map (blobKey (store u)) (blobs u))" using db by (simp only: distinct_map)
  moreover have "map fst (blobsMap u) = map (blobKey (store u)) (blobs u)"
    unfolding bm by (simp add: comp_def)
  ultimately have dk: "distinct (map fst (blobsMap u))" by simp
  have range: "0 \<le> blob_x (store u ! b) \<and> blob_x (store u ! b) < int N \<and>
               0 \<le> blob_y (store u ! b) \<and> blob_y (store u ! b) < int N"
    if b: "b \<in> set (blobs u)" for b
  proof -
    have "blobCell (store u) b \<in> blobCell (store u) ` set (blobs u)" using b by (rule imageI)
    then have "blobCell (store u) b \<in> {(x, y). (y, x) \<in> set ?ps \<and> grid ! nat y ! nat x = 1}"
      by (simp only: cells)
    then have "(blob_y (store u ! b), blob_x (store u ! b)) \<in> set ?ps"
      by (simp add: blobCell_def)
    then show ?thesis by (simp only: mem_cells)
  qed
  have reg: "map_of (blobsMap u) (blobKey (store u) b) = Some b" if b: "b \<in> set (blobs u)" for b
  proof -
    have "(blobKey (store u) b, b) \<in> set (blobsMap u)" unfolding bm using b by simp
    then show ?thesis using dk by simp
  qed
  have alloc: "b < length (store u)" if "b \<in> set (blobs u)" for b
    using that by (simp add: bl)
  have ent: "snd p \<in> set (blobs u) \<and> fst p = blobKey (store u) (snd p)" if "p \<in> set (blobsMap u)" for p
  proof -
    from that obtain b where "b \<in> set (blobs u)" "p = (blobKey (store u) b, b)"
      unfolding bm by auto
    then show ?thesis by simp
  qed
  show ?thesis
    unfolding bookkeeping_ok_def
    using N g sz db alloc range reg ent by simp
qed

lemma createBlobs_shows_live_cells:
  assumes sq: "square_grid N (game_grid (game v))" and sz: "game_size (game v) = int N" and N: "1 \<le> N"
  shows "\<exists>v'. createBlobs v = Inr v' \<and> bookkeeping_ok N v' \<and> game v' = game v \<and>
           pendingChanges v' = pendingChanges v \<and> isAnimating v' = isAnimating v \<and>
           blobCell (store v') ` set (blobs v')
             = {(x, y). 0 \<le> x \<and> x < int N \<and> 0 \<le> y \<and> y < int N \<and>
                        game_grid (game v) ! nat y ! nat x = 1}"
proof -
  let ?grid = "game_grid (game v)"
  let ?v0 = "v\<lparr>blobs := [], blobsMap := []\<rparr>"
  let ?ps = "List.product (upto_size (int N)) (upto_size (int N))"
  have e: "blobs ?v0 = []" "blobsMap ?v0 = []" by simp_all
  have r: "\<forall>p \<in> set ?ps. 0 \<le> fst p \<and> fst p < int N \<and> 0 \<le> snd p \<and> snd p < int N"
  proof
    fix p assume "p \<in> set ?ps"
    then have "(fst p, snd p) \<in> set ?ps" by simp
    then show "0 \<le> fst p \<and> fst p < int N \<and> 0 \<le> snd p \<and> snd p < int N"
      by (simp only: mem_cells)
  qed
  from create_fold_inv[OF sq e distinct_cells r] obtain u where u:
    "for_fold (\<lambda>p. createBlobAt ?grid (fst p) (snd p)) ?ps ?v0 = Inr u" "createInv ?grid ?v0 ?ps u"
    by blast
  have run: "createBlobs v = Inr (identifyOrganismGroups u)"
    using u(1) sz by (simp add: createBlobs_def for_fold_nested)
  note i = u(2)[unfolded createInv_def]
  have g: "game u = game ?v0" "pendingChanges u = pendingChanges ?v0" "isAnimating u = isAnimating ?v0"
    using i by blast+
  have cells: "blobCell (store u) ` set (blobs u) = {(x, y). (y, x) \<in> set ?ps \<and> ?grid ! nat y ! nat x = 1}"
    using i by blast
  have sz0: "game_size (game ?v0) = int N" using sz by simp
  have ok: "bookkeeping_ok N (identifyOrganismGroups u)"
    by (rule bookkeeping_ok_identify) (rule createInv_bookkeeping[OF u(2) N sz0])
  have same: "sameBlobs (store u) (store (identifyOrganismGroups u))" by (rule identify_sameBlobs)
  then have "blobCell (store (identifyOrganismGroups u)) = blobCell (store u)"
    by (intro ext) (simp add: blobCell_def sameBlobs_def)
  then have "blobCell (store (identifyOrganismGroups u)) ` set (blobs (identifyOrganismGroups u))
      = {(x, y). (y, x) \<in> set ?ps \<and> ?grid ! nat y ! nat x = 1}"
    using cells by simp
  also have "\<dots> = {(x, y). 0 \<le> x \<and> x < int N \<and> 0 \<le> y \<and> y < int N \<and> ?grid ! nat y ! nat x = 1}"
    by (simp only: mem_cells) blast
  finally have c: "blobCell (store (identifyOrganismGroups u)) ` set (blobs (identifyOrganismGroups u))
      = {(x, y). 0 \<le> x \<and> x < int N \<and> 0 \<le> y \<and> y < int N \<and> ?grid ! nat y ! nat x = 1}" .
  have g': "game (identifyOrganismGroups u) = game v"
    "pendingChanges (identifyOrganismGroups u) = pendingChanges v"
    "isAnimating (identifyOrganismGroups u) = isAnimating v"
    using g by simp_all
  show ?thesis
    by (rule exI[of _ "identifyOrganismGroups u"]) (intro conjI run ok g' c)
qed

lemma newVisualizer_shows_live_cells:
  assumes "square_grid N (game_grid g)" "game_size g = int N" "1 \<le> N"
  shows "\<exists>v. newVisualizer g = Inr v \<and> bookkeeping_ok N v \<and> game v = g \<and>
           pendingChanges v = None \<and> \<not> isAnimating v \<and>
           blobCell (store v) ` set (blobs v)
             = {(x, y). 0 \<le> x \<and> x < int N \<and> 0 \<le> y \<and> y < int N \<and> game_grid g ! nat y ! nat x = 1}"
  using createBlobs_shows_live_cells[of N "\<lparr>game = g, store = [], blobs = [], blobsMap = [],
      organismGroups = [], pendingChanges = None, isAnimating = False\<rparr>"] assms
  by (simp add: newVisualizer_def)

lemma resetBlobs_shows_live_cells:
  assumes "square_grid N (game_grid (game v))" "game_size (game v) = int N" "1 \<le> N"
  shows "\<exists>v'. resetBlobs v = Inr v' \<and> bookkeeping_ok N v' \<and> game v' = game v \<and>
           pendingChanges v' = None \<and> \<not> isAnimating v'"
  using createBlobs_shows_live_cells[of N "v\<lparr>blobs := [], blobsMap := [], organismGroups := [],
      pendingChanges := None, isAnimating := False\<rparr>"] assms
  by (auto simp: resetBlobs_def)

section \<open>The clustering reads the cells only\<close>

text \<open>
  \<open>identifyOrganismGroups\<close> reads the coordinates of the blobs and nothing else of the
  store: on two stores with the blobs on the same cells it finds the same organisms. So
  regrouping twice gives the organisms of regrouping once, and the organisms are those of
  the collections after \<open>createBlobs\<close> and after the two continuations of a transition.
\<close>

lemma sameCells_refl [simp]: "sameCells st st"
  by (simp add: sameCells_def)

lemma sameCells_sym: "sameCells st st' \<Longrightarrow> sameCells st' st"
  by (simp add: sameCells_def)

lemma sameCells_trans: "sameCells st st1 \<Longrightarrow> sameCells st1 st2 \<Longrightarrow> sameCells st st2"
  by (simp add: sameCells_def)

lemma sameBlobs_sameCells: "sameBlobs st st' \<Longrightarrow> sameCells st st'"
  by (simp add: sameBlobs_def sameCells_def)

lemma sameCells_blobKey: "sameCells st st' \<Longrightarrow> blobKey st' b = blobKey st b"
  by (simp add: sameCells_def blobKey_def)

lemma sameCells_setId:
  assumes "sameCells st1 st2"
  shows "sameCells (st1[b := (st1 ! b)\<lparr>organismId := oid\<rparr>]) (st2[b := (st2 ! b)\<lparr>organismId := oid'\<rparr>])"
proof -
  have "sameCells st1 (st1[b := (st1 ! b)\<lparr>organismId := oid\<rparr>])"
    by (rule sameBlobs_sameCells) (rule sameBlobs_setId)
  moreover have "sameCells st2 (st2[b := (st2 ! b)\<lparr>organismId := oid'\<rparr>])"
    by (rule sameBlobs_sameCells) (rule sameBlobs_setId)
  ultimately show ?thesis
    using assms by (meson sameCells_sym sameCells_trans)
qed

lemma bfs_cong:
  "sameCells st1 st2 \<Longrightarrow>
     fst (bfs sz bm oid q V m st1) = fst (bfs sz bm oid q V m st2) \<and>
     fst (snd (bfs sz bm oid q V m st1)) = fst (snd (bfs sz bm oid q V m st2)) \<and>
     sameCells (snd (snd (bfs sz bm oid q V m st1))) (snd (snd (bfs sz bm oid q V m st2)))"
proof (induction sz bm oid q V m st1 arbitrary: st2 rule: bfs.induct)
  case (1 sz bm oid V m st)
  then show ?case by simp
next
  case (2 sz bm oid c rest V m st)
  let ?s1 = "st[c := (st ! c)\<lparr>organismId := oid\<rparr>]"
  let ?s2 = "st2[c := (st2 ! c)\<lparr>organismId := oid\<rparr>]"
  have sc: "sameCells ?s1 ?s2" by (rule sameCells_setId) (rule "2.prems")
  then have xy: "blob_x (?s2 ! c) = blob_x (?s1 ! c)" "blob_y (?s2 ! c) = blob_y (?s1 ! c)"
    by (simp_all only: sameCells_def)
  from "2.IH"[OF refl refl refl sc] show ?case
    by (simp only: bfs.simps Let_def xy)
qed

lemma organismsLoop_cong:
  "sameCells st1 st2 \<Longrightarrow>
     fst (organismsLoop sz bm bs (oid, V, gs, st1)) = fst (organismsLoop sz bm bs (oid, V, gs, st2)) \<and>
     fst (snd (organismsLoop sz bm bs (oid, V, gs, st1)))
       = fst (snd (organismsLoop sz bm bs (oid, V, gs, st2))) \<and>
     fst (snd (snd (organismsLoop sz bm bs (oid, V, gs, st1))))
       = fst (snd (snd (organismsLoop sz bm bs (oid, V, gs, st2)))) \<and>
     sameCells (snd (snd (snd (organismsLoop sz bm bs (oid, V, gs, st1)))))
               (snd (snd (snd (organismsLoop sz bm bs (oid, V, gs, st2)))))"
proof (induction bs arbitrary: oid V gs st1 st2)
  case Nil
  then show ?case by simp
next
  case (Cons b bs)
  have k: "blobKey st2 b = blobKey st1 b" by (rule sameCells_blobKey) (rule Cons.prems)
  show ?case
  proof (cases "blobKey st1 b \<in> V")
    case True
    then show ?thesis using Cons.IH[OF Cons.prems, of oid V gs] k by simp
  next
    case False
    obtain V1 m1 s1 where r1: "bfs sz bm oid [b] (insert (blobKey st1 b) V) [] st1 = (V1, m1, s1)"
      by (cases "bfs sz bm oid [b] (insert (blobKey st1 b) V) [] st1")
    obtain V2 m2 s2 where r2: "bfs sz bm oid [b] (insert (blobKey st1 b) V) [] st2 = (V2, m2, s2)"
      by (cases "bfs sz bm oid [b] (insert (blobKey st1 b) V) [] st2")
    from bfs_cong[OF Cons.prems, of sz bm oid "[b]" "insert (blobKey st1 b) V" "[]"] r1 r2
    have e: "V2 = V1" "m2 = m1" "sameCells s1 s2" by simp_all
    show ?thesis
      using Cons.IH[OF e(3), of "oid + 1" V1
          "gs @ [\<lparr>org_id = oid, org_blobs = m1, org_color = js_rem oid 6\<rparr>]"] False k r1 r2 e(1,2)
      by simp
  qed
qed

lemma identify_groups_cong:
  assumes "game_size (game w) = game_size (game v)" "blobs w = blobs v" "blobsMap w = blobsMap v"
    and "sameCells (store v) (store w)"
  shows "organismGroups (identifyOrganismGroups w) = organismGroups (identifyOrganismGroups v)"
proof -
  obtain a1 b1 c1 d1 where r1:
    "organismsLoop (game_size (game v)) (blobsMap v) (blobs v) (0, {}, [], store v) = (a1, b1, c1, d1)"
    by (cases "organismsLoop (game_size (game v)) (blobsMap v) (blobs v) (0, {}, [], store v)")
  obtain a2 b2 c2 d2 where r2:
    "organismsLoop (game_size (game v)) (blobsMap v) (blobs v) (0, {}, [], store w) = (a2, b2, c2, d2)"
    by (cases "organismsLoop (game_size (game v)) (blobsMap v) (blobs v) (0, {}, [], store w)")
  from organismsLoop_cong[OF assms(4), of "game_size (game v)" "blobsMap v" "blobs v" 0 "{}" "[]"] r1 r2
  have "c2 = c1" by simp
  then show ?thesis using r1 r2 assms(1,2,3) by (simp add: identifyOrganismGroups_def)
qed

lemma identify_sameCells: "sameCells (store v) (store (identifyOrganismGroups v))"
  by (rule sameBlobs_sameCells) (rule identify_sameBlobs)

lemma identify_idempotent:
  "organismGroups (identifyOrganismGroups (identifyOrganismGroups v))
     = organismGroups (identifyOrganismGroups v)"
  by (rule identify_groups_cong) (simp_all add: identify_sameCells)

lemma showBlobs_sameCells: "sameCells (store v) (store (foldl showBlob v bs))"
proof (induction bs arbitrary: v)
  case Nil
  show ?case by simp
next
  case (Cons b bs)
  have "(store v)[b := (store v ! b)\<lparr>visible := True\<rparr>] ! i
      = (if i = b \<and> b < length (store v) then (store v ! b)\<lparr>visible := True\<rparr> else store v ! i)" for i
    by (cases "b < length (store v)") (auto simp: nth_list_update list_update_beyond)
  then have "sameCells (store v) (store (showBlob v b))"
    by (simp add: sameCells_def showBlob_def)
  from sameCells_trans[OF this Cons.IH[of "showBlob v b"]] show ?case by simp
qed

lemma clearNews_sameCells: "sameCells (store v) (store (foldl clearNew v bs))"
proof (induction bs arbitrary: v)
  case Nil
  show ?case by simp
next
  case (Cons b bs)
  have "(store v)[b := (store v ! b)\<lparr>isNew := False\<rparr>] ! i
      = (if i = b \<and> b < length (store v) then (store v ! b)\<lparr>isNew := False\<rparr> else store v ! i)" for i
    by (cases "b < length (store v)") (auto simp: nth_list_update list_update_beyond)
  then have "sameCells (store v) (store (clearNew v b))"
    by (simp add: sameCells_def clearNew_def)
  from sameCells_trans[OF this Cons.IH[of "clearNew v b"]] show ?case by simp
qed

lemma createBlobs_current:
  assumes "createBlobs u = Inr v"
  shows "organismGroups (identifyOrganismGroups v) = organismGroups v"
proof -
  from assms obtain w where "v = identifyOrganismGroups w"
    by (cases "for_fold (\<lambda>y. for_fold (createBlobAt (game_grid (game u)) y) (upto_size (game_size (game u))))
          (upto_size (game_size (game u))) (u\<lparr>blobs := [], blobsMap := []\<rparr>)")
       (auto simp: createBlobs_def)
  then show ?thesis by (simp add: identify_idempotent)
qed

lemma transition_current:
  "organismGroups (identifyOrganismGroups (afterGrow (fst (afterShrink ch u))))
     = organismGroups (afterGrow (fst (afterShrink ch u)))"
proof -
  let ?w = "updateCollections ch u"
  let ?x = "startGrow ch (identifyOrganismGroups ?w)"
  have x: "fst (afterShrink ch u) = ?x" by (simp add: afterShrink_def)
  have g: "organismGroups (afterGrow ?x) = organismGroups (identifyOrganismGroups ?w)"
    by (simp add: afterGrow_def startGrow_def)
  have f: "game_size (game (afterGrow ?x)) = game_size (game ?w)" "blobs (afterGrow ?x) = blobs ?w"
    "blobsMap (afterGrow ?x) = blobsMap ?w"
    by (simp_all add: afterGrow_def startGrow_def)
  have "sameCells (store ?w) (store (identifyOrganismGroups ?w))" by (rule identify_sameCells)
  moreover have "sameCells (store (identifyOrganismGroups ?w)) (store ?x)"
    unfolding startGrow_def by (rule showBlobs_sameCells)
  moreover have "sameCells (store ?x) (store (afterGrow ?x))"
    using clearNews_sameCells[of ?x "blobs ?x"] by (simp add: afterGrow_def)
  ultimately have sc: "sameCells (store ?w) (store (afterGrow ?x))"
    by (meson sameCells_trans)
  have "organismGroups (identifyOrganismGroups (afterGrow ?x)) = organismGroups (identifyOrganismGroups ?w)"
    by (rule identify_groups_cong[OF f sc])
  then show ?thesis using g x by simp
qed

section \<open>The automaton: cell lookup\<close>

text \<open>
  C7 (as amended). On an \<open>N\<times>N\<close> grid with \<open>N \<ge> 1\<close>, for every pair \<open>(x, y)\<close> of
  safe integers whose sums with \<open>N\<close> are safe integers (the range on which the source's
  arithmetic is exact), \<open>getCell\<close> behaves as follows. If \<open>x \<ge> -N\<close> or \<open>x\<close> is a multiple of
  \<open>N\<close>, and likewise \<open>y\<close> (negative values down to \<open>-N\<close>, every multiple of \<open>N\<close>, and
  values above the grid bounds), it throws nothing and returns the state of the cell at the
  toroidally wrapped coordinates \<open>(x mod N, y mod N)\<close>. Otherwise the wrapped index
  \<open>(x + N) % N\<close> is negative: for such a \<open>y\<close> the call throws a \<open>TypeError\<close>, and for such an
  \<open>x\<close> (with \<open>y\<close> as before) it returns \<open>undefined\<close>.
\<close>

theorem getCell_toroidal:
  assumes "square_grid N (game_grid g)" "game_size g = int N" "1 \<le> N" "safe_integer (int N)"
    and "safe_integer x" "safe_integer (x + int N)" "safe_integer y" "safe_integer (y + int N)"
  shows "getCell g x y =
     (if - int N \<le> y \<or> int N dvd y
      then (if - int N \<le> x \<or> int N dvd x
            then Inr (Num (game_grid g ! nat (y mod int N) ! nat (x mod int N)))
            else Inr Undefined)
      else Inl TypeError)"
proof -
  have n: "0 < int N" using assms(3) by simp
  have ym: "0 \<le> y mod int N" "y mod int N < int N" and xm: "0 \<le> x mod int N" "x mod int N < int N"
    using n by simp_all
  show ?thesis
  proof (cases "- int N \<le> y \<or> int N dvd y")
    case False
    then obtain r where "js_rem (y + int N) (int N) = Num r" "r < 0"
      using js_rem_below[OF n, of y] by auto
    then show ?thesis
      using False assms(2) by (simp add: getCell_def js_index2_negative_row)
  next
    case y: True
    have wy: "js_rem (y + int N) (int N) = Num (y mod int N)" by (rule js_rem_inside[OF n y])
    show ?thesis
    proof (cases "- int N \<le> x \<or> int N dvd x")
      case False
      then obtain r where "js_rem (x + int N) (int N) = Num r" "r < 0"
        using js_rem_below[OF n, of x] by auto
      then show ?thesis
        using False y wy assms(2) js_index2_negative_cell[OF assms(1) ym, of r]
        by (simp add: getCell_def)
    next
      case x: True
      have wx: "js_rem (x + int N) (int N) = Num (x mod int N)" by (rule js_rem_inside[OF n x])
      show ?thesis
        using x y wx wy assms(2) js_index2_square[OF assms(1) ym xm]
        by (simp add: getCell_def)
    qed
  qed
qed

theorem getCell_toroidal_witness:
  "square_grid 3 [[0, 0, 1], [0, 0, 0], [0, 0, 0]] \<and>
   safe_integer (int 3) \<and> safe_integer (- 1) \<and> safe_integer (- 1 + int 3) \<and>
   safe_integer 6 \<and> safe_integer (6 + int 3) \<and>
   getCell \<lparr>game_size = 3, initialDensity = 0, game_grid = [[0, 0, 1], [0, 0, 0], [0, 0, 0]]\<rparr> (- 1) 6
     = Inr (Num 1) \<and>
   safe_integer 5 \<and> safe_integer (5 + int 3) \<and> safe_integer (- 6) \<and> safe_integer (- 6 + int 3) \<and>
   getCell \<lparr>game_size = 3, initialDensity = 0, game_grid = [[0, 0, 1], [0, 0, 0], [0, 0, 0]]\<rparr> 5 (- 6)
     = Inr (Num 1) \<and>
   safe_integer (- 4) \<and> safe_integer (- 4 + int 3) \<and>
   getCell \<lparr>game_size = 3, initialDensity = 0, game_grid = [[0, 0, 1], [0, 0, 0], [0, 0, 0]]\<rparr> (- 4) 6
     = Inr Undefined"
  using getCell_toroidal[of 3 "\<lparr>game_size = 3, initialDensity = 0,
      game_grid = [[0, 0, 1], [0, 0, 0], [0, 0, 0]]\<rparr>" "- 1" 6]
    getCell_toroidal[of 3 "\<lparr>game_size = 3, initialDensity = 0,
      game_grid = [[0, 0, 1], [0, 0, 0], [0, 0, 0]]\<rparr>" 5 "- 6"]
    getCell_toroidal[of 3 "\<lparr>game_size = 3, initialDensity = 0,
      game_grid = [[0, 0, 1], [0, 0, 0], [0, 0, 0]]\<rparr>" "- 4" 6]
  by (simp add: square_grid_def safe_integer_def)

text \<open>
  C7 as stated fails below \<open>-N\<close>: on a \<open>3\<times>3\<close> grid whose cell \<open>(2, 0)\<close> is alive,
  \<open>getCell(-4, 0)\<close> is \<open>undefined\<close> although \<open>(-4) mod 3 = 2\<close>, and \<open>getCell(2, -4)\<close>
  throws a \<open>TypeError\<close>: the wrapped index \<open>(-4 + 3) % 3\<close> is \<open>-1\<close>.
\<close>

theorem getCell_toroidal_counterexample:
  "getCell \<lparr>game_size = 3, initialDensity = 0, game_grid = [[0, 0, 1], [0, 0, 0], [0, 0, 0]]\<rparr> (- 4) 0
     = Inr Undefined \<and>
   torus_cell [[0, 0, 1], [0, 0, 0], [0, 0, 0]] 3 (- 4) 0 = 1 \<and>
   getCell \<lparr>game_size = 3, initialDensity = 0, game_grid = [[0, 0, 1], [0, 0, 0], [0, 0, 0]]\<rparr> 2 (- 4)
     = Inl TypeError"
  by (simp add: getCell_def js_rem_def js_index2_def torus_cell_def)

section \<open>The automaton: the next generation\<close>

lemma wf_game_square: "wf_game N g \<Longrightarrow> square_grid N (game_grid g)"
  by (simp add: wf_game_def square_grid_def)

lemma torus_cell_binary:
  assumes "wf_game N g"
  shows "torus_cell (game_grid g) N x y = 0 \<or> torus_cell (game_grid g) N x y = 1"
proof -
  let ?j = "nat (y mod int N)" and ?i = "nat (x mod int N)"
  have n: "0 < int N" using assms by (simp add: wf_game_def)
  have j: "?j < length (game_grid g)" using assms n by (simp add: wf_game_def nat_less_iff)
  then have row: "game_grid g ! ?j \<in> set (game_grid g)" by simp
  then have "length (game_grid g ! ?j) = N" using assms by (simp add: wf_game_def)
  then have "?i < length (game_grid g ! ?j)" using n by (simp add: nat_less_iff)
  then have "game_grid g ! ?j ! ?i \<in> set (game_grid g ! ?j)" by simp
  then show ?thesis using assms row by (auto simp: wf_game_def torus_cell_def)
qed

lemma countLoop_sum:
  assumes "wf_game N g" "0 \<le> x" "0 \<le> y"
    and "\<forall>(dx, dy) \<in> set offs. - 1 \<le> dx \<and> - 1 \<le> dy"
  shows "countLoop g x y (Num c) offs =
         Inr (Num (c + int (length (filter (\<lambda>(dx, dy). torus_cell (game_grid g) N (x + dx) (y + dy) = 1) offs))))"
  using assms(4)
proof (induction offs arbitrary: c)
  case Nil
  then show ?case by simp
next
  case (Cons off offs)
  obtain dx dy where o: "off = (dx, dy)" by (cases off)
  have b: "- 1 \<le> dx" "- 1 \<le> dy" using Cons.prems o by simp_all
  have N: "1 \<le> N" "game_size g = int N" using assms(1) by (simp_all add: wf_game_def)
  have "getCell g (x + dx) (y + dy) = Inr (Num (torus_cell (game_grid g) N (x + dx) (y + dy)))"
    using getCell_wrap[OF wf_game_square[OF assms(1)] N(2) N(1)] b assms(2,3) N(1) by simp
  moreover have "torus_cell (game_grid g) N (x + dx) (y + dy) = 0
      \<or> torus_cell (game_grid g) N (x + dx) (y + dy) = 1"
    using torus_cell_binary[OF assms(1)] by simp
  moreover have "\<forall>(dx, dy) \<in> set offs. - 1 \<le> dx \<and> - 1 \<le> dy" using Cons.prems by simp
  ultimately show ?case using Cons.IH o by auto
qed

lemma countNeighbors_spec:
  assumes "wf_game N g" "0 \<le> x" "0 \<le> y"
  shows "countNeighbors g x y = Inr (Num (int (liveNeighborCount_spec (game_grid g) N x y)))"
proof -
  have "\<forall>(dx, dy) \<in> set neighbourOffsets. - 1 \<le> dx \<and> - 1 \<le> dy"
    by (simp add: neighbourOffsets_eq)
  from countLoop_sum[OF assms this, of 0] show ?thesis
    by (simp add: countNeighbors_def liveNeighborCount_spec_def neighbourOffsets_eq)
qed

lemma nextCell_spec:
  assumes "wf_game N g" "0 \<le> x" "0 \<le> y"
  shows "nextCell g y x = Inr (conway_rule (torus_cell (game_grid g) N x y)
           (liveNeighborCount_spec (game_grid g) N x y))"
proof -
  have N: "1 \<le> N" "game_size g = int N" using assms(1) by (simp_all add: wf_game_def)
  have "getCell g x y = Inr (Num (torus_cell (game_grid g) N x y))"
    using getCell_wrap[OF wf_game_square[OF assms(1)] N(2) N(1)] assms(2,3) by simp
  then show ?thesis
    using countNeighbors_spec[OF assms] by (simp add: nextCell_def conway_rule_def)
qed

lemma for_collect_map:
  "(\<forall>i \<in> set ixs. f i = Inr (h i)) \<Longrightarrow> for_collect f ixs = Inr (map h ixs)"
  by (induction ixs) simp_all

lemma computeNextGeneration_spec:
  assumes "wf_game N g"
  shows "computeNextGeneration g =
    (Inr (map (\<lambda>y. map (\<lambda>x. conway_rule (torus_cell (game_grid g) N (int x) (int y))
                 (liveNeighborCount_spec (game_grid g) N (int x) (int y))) [0..<N]) [0..<N]), g)"
proof -
  have N: "game_size g = int N" using assms by (simp add: wf_game_def)
  have row: "for_collect (nextCell g y) (upto_size (int N)) =
      Inr (map (\<lambda>x. conway_rule (torus_cell (game_grid g) N x y)
                 (liveNeighborCount_spec (game_grid g) N x y)) (upto_size (int N)))"
    if "0 \<le> y" for y
    by (rule for_collect_map) (use that nextCell_spec[OF assms] in \<open>auto simp: upto_size_def\<close>)
  have "for_collect (\<lambda>y. for_collect (nextCell g y) (upto_size (int N))) (upto_size (int N)) =
      Inr (map (\<lambda>y. map (\<lambda>x. conway_rule (torus_cell (game_grid g) N x y)
                 (liveNeighborCount_spec (game_grid g) N x y)) (upto_size (int N))) (upto_size (int N)))"
    by (rule for_collect_map) (use row in \<open>auto simp: upto_size_def\<close>)
  then show ?thesis by (simp add: computeNextGeneration_def N upto_size_def comp_def)
qed

text \<open>
  C1. For every \<open>N\<times>N\<close> grid (\<open>N \<ge> 1\<close>, cells 0 or 1) and every cell \<open>(x, y)\<close> inside
  it, \<open>computeNextGeneration\<close> returns an \<open>N\<times>N\<close> grid whose cell \<open>(x, y)\<close> is alive iff
  the cell is alive now and its toroidal live-neighbour count is 2 or 3, or it is dead now
  and that count is exactly 3. The game object after the call is the one before it (the
  current grid is not mutated), and the result is a function of the input grid alone.
\<close>

theorem computeNextGeneration_rule:
  assumes "wf_game N g" "x < N" "y < N"
  shows "\<exists>nextGrid. computeNextGeneration g = (Inr nextGrid, g) \<and>
           square_grid N nextGrid \<and>
           (nextGrid ! y ! x = 1 \<or> nextGrid ! y ! x = 0) \<and>
           (nextGrid ! y ! x = 1 \<longleftrightarrow>
              (game_grid g ! y ! x = 1 \<and>
                 (liveNeighborCount_spec (game_grid g) N (int x) (int y) = 2 \<or>
                  liveNeighborCount_spec (game_grid g) N (int x) (int y) = 3)) \<or>
              (game_grid g ! y ! x \<noteq> 1 \<and>
                 liveNeighborCount_spec (game_grid g) N (int x) (int y) = 3))"
proof -
  have tc: "torus_cell (game_grid g) N (int x) (int y) = game_grid g ! y ! x"
    using assms(2,3) by (simp add: torus_cell_def)
  show ?thesis
    using assms(2,3) tc
    by (simp add: computeNextGeneration_spec[OF assms(1)] square_grid_def conway_rule_def)
qed

theorem computeNextGeneration_rule_witness:
  "wf_game 5 \<lparr>game_size = 5, initialDensity = 0, game_grid =
      [[0, 0, 0, 0, 0], [0, 0, 0, 0, 0], [0, 1, 1, 1, 0], [0, 0, 0, 0, 0], [0, 0, 0, 0, 0]]\<rparr> \<and>
   (\<exists>nextGrid. computeNextGeneration \<lparr>game_size = 5, initialDensity = 0, game_grid =
      [[0, 0, 0, 0, 0], [0, 0, 0, 0, 0], [0, 1, 1, 1, 0], [0, 0, 0, 0, 0], [0, 0, 0, 0, 0]]\<rparr> =
        (Inr nextGrid, \<lparr>game_size = 5, initialDensity = 0, game_grid =
      [[0, 0, 0, 0, 0], [0, 0, 0, 0, 0], [0, 1, 1, 1, 0], [0, 0, 0, 0, 0], [0, 0, 0, 0, 0]]\<rparr>) \<and>
      nextGrid ! 1 ! 2 = 1)"
  using computeNextGeneration_rule[of 5 "\<lparr>game_size = 5, initialDensity = 0, game_grid =
      [[0, 0, 0, 0, 0], [0, 0, 0, 0, 0], [0, 1, 1, 1, 0], [0, 0, 0, 0, 0], [0, 0, 0, 0, 0]]\<rparr>" 2 1]
  by (auto simp: wf_game_def liveNeighborCount_spec_def torus_cell_def)

section \<open>The automaton: the diff of two grids\<close>

lemma changedAt_square:
  assumes "square_grid N oldGrid" "square_grid N newGrid" "x < N" "y < N"
  shows "changedAt oldGrid newGrid (int y) (int x) acc =
     Inr (acc @ (if oldGrid ! y ! x \<noteq> newGrid ! y ! x
                 then [\<lparr>cc_x = int x, cc_y = int y, cc_state = Num (newGrid ! y ! x)\<rparr>] else []))"
  using js_index2_square[OF assms(1), of "int y" "int x"]
        js_index2_square[OF assms(2), of "int y" "int x"] assms(3,4)
  by (simp add: changedAt_def)

lemma changed_row:
  assumes "square_grid N oldGrid" "square_grid N newGrid" "y < N" "\<forall>x \<in> set xs. x < N"
  shows "for_fold (changedAt oldGrid newGrid (int y)) (map int xs) acc =
     Inr (acc @ map (\<lambda>(y, x). \<lparr>cc_x = int x, cc_y = int y, cc_state = Num (newGrid ! y ! x)\<rparr>)
       (filter (\<lambda>(y, x). oldGrid ! y ! x \<noteq> newGrid ! y ! x) (map (Pair y) xs)))"
  using assms(4)
proof (induction xs arbitrary: acc)
  case Nil
  then show ?case by simp
next
  case (Cons x xs)
  then show ?case
    using changedAt_square[OF assms(1,2) _ assms(3), of x acc] by simp
qed

lemma changed_rows:
  assumes "square_grid N oldGrid" "square_grid N newGrid" "\<forall>y \<in> set ys. y < N"
  shows "for_fold (\<lambda>y. for_fold (changedAt oldGrid newGrid y) (upto_size (int N))) (map int ys) acc =
     Inr (acc @ map (\<lambda>(y, x). \<lparr>cc_x = int x, cc_y = int y, cc_state = Num (newGrid ! y ! x)\<rparr>)
       (filter (\<lambda>(y, x). oldGrid ! y ! x \<noteq> newGrid ! y ! x) (List.product ys [0..<N])))"
  using assms(3)
proof (induction ys arbitrary: acc)
  case Nil
  then show ?case by simp
next
  case (Cons y ys)
  have "y < N" using Cons.prems by simp
  from changed_row[OF assms(1,2) this, of "[0..<N]"] show ?case
    using Cons by (simp add: upto_size_def)
qed

lemma getChangedCells_diff_spec:
  assumes "game_size g = int N" "square_grid N oldGrid" "square_grid N newGrid"
  shows "getChangedCells g oldGrid newGrid = Inr (diff_spec N oldGrid newGrid)"
  using changed_rows[OF assms(2,3), of "[0..<N]" "[]"] assms(1)
  by (simp add: getChangedCells_def diff_spec_def upto_size_def)

text \<open>
  C9 (as amended). For every two grids of the game's own dimensions \<open>N\<times>N\<close> (\<open>N\<close> being
  \<open>this.size\<close>), \<open>getChangedCells\<close> returns exactly the coordinates \<open>(x, y)\<close> at which the
  two grids differ, each once and each with the new grid's value there, and the empty list
  when the grids are identical.
\<close>

theorem getChangedCells_exact:
  assumes "game_size g = int N" "square_grid N oldGrid" "square_grid N newGrid"
  shows "\<exists>cs. getChangedCells g oldGrid newGrid = Inr cs \<and>
           set cs = {\<lparr>cc_x = int x, cc_y = int y, cc_state = Num (newGrid ! y ! x)\<rparr> | x y.
                       x < N \<and> y < N \<and> oldGrid ! y ! x \<noteq> newGrid ! y ! x} \<and>
           distinct (map (\<lambda>c. (cc_x c, cc_y c)) cs) \<and>
           (oldGrid = newGrid \<longrightarrow> cs = [])"
proof -
  let ?mk = "\<lambda>(y, x). \<lparr>cc_x = int x, cc_y = int y, cc_state = Num (newGrid ! y ! x)\<rparr>"
  let ?ps = "filter (\<lambda>(y, x). oldGrid ! y ! x \<noteq> newGrid ! y ! x) (List.product [0..<N] [0..<N])"
  have 1: "set (diff_spec N oldGrid newGrid) =
      {\<lparr>cc_x = int x, cc_y = int y, cc_state = Num (newGrid ! y ! x)\<rparr> | x y.
         x < N \<and> y < N \<and> oldGrid ! y ! x \<noteq> newGrid ! y ! x}"
    by (auto simp: diff_spec_def image_iff)
  have "distinct ?ps" by (simp add: distinct_product)
  moreover have "inj_on (\<lambda>p. (cc_x (?mk p), cc_y (?mk p))) (set ?ps)"
    by (auto simp: inj_on_def)
  ultimately have 2: "distinct (map (\<lambda>c. (cc_x c, cc_y c)) (diff_spec N oldGrid newGrid))"
    by (simp add: diff_spec_def distinct_map comp_def)
  have 3: "oldGrid = newGrid \<longrightarrow> diff_spec N oldGrid newGrid = []"
    by (simp add: diff_spec_def)
  show ?thesis
    using getChangedCells_diff_spec[OF assms] 1 2 3 by simp
qed

theorem getChangedCells_exact_witness:
  "square_grid 2 [[0, 1], [1, 0]] \<and> square_grid 2 [[0, 0], [1, 1]] \<and>
   (\<exists>cs. getChangedCells \<lparr>game_size = 2, initialDensity = 0, game_grid = [[0, 1], [1, 0]]\<rparr>
            [[0, 1], [1, 0]] [[0, 0], [1, 1]] = Inr cs \<and>
      set cs = {\<lparr>cc_x = int x, cc_y = int y, cc_state = Num ([[0, 0], [1, 1]] ! y ! x)\<rparr> | x y.
                  x < 2 \<and> y < 2 \<and> [[0, 1], [1, 0]] ! y ! x \<noteq> [[0, 0], [1, 1::int]] ! y ! x} \<and>
      distinct (map (\<lambda>c. (cc_x c, cc_y c)) cs))"
  using getChangedCells_exact[of "\<lparr>game_size = 2, initialDensity = 0, game_grid = [[0, 1], [1, 0]]\<rparr>"
      2 "[[0, 1], [1, 0]]" "[[0, 0], [1, 1]]"]
  by (simp add: square_grid_def)

text \<open>
  C9 as stated fails for two grids of equal dimensions other than the game's: the loops run
  to \<open>this.size\<close>, not to the dimensions of the grids. A game of size 1 given two \<open>2\<times>2\<close>
  grids that differ at \<open>(1, 1)\<close> returns the empty list, and a game of size 3 given the same
  two grids throws a \<open>TypeError\<close> at the missing row.
\<close>

theorem getChangedCells_size_counterexample:
  "getChangedCells \<lparr>game_size = 1, initialDensity = 0, game_grid = [[0]]\<rparr>
      [[0, 0], [0, 0]] [[0, 0], [0, 1]] = Inr [] \<and>
   [[0, 0], [0, 0]] ! 1 ! 1 \<noteq> [[0, 0], [0, 1 :: int]] ! 1 ! 1 \<and>
   getChangedCells \<lparr>game_size = 3, initialDensity = 0, game_grid = [[0, 0, 0], [0, 0, 0], [0, 0, 0]]\<rparr>
      [[0, 0], [0, 0]] [[0, 0], [0, 1]] = Inl TypeError"
  by (simp add: getChangedCells_def upto_size_def changedAt_def js_index2_def upt_rec)

section \<open>The automaton: initialisation\<close>

lemma length_reset_row: "length (reset_row rnd density n y) = n"
  by (simp add: reset_row_def)

lemma reset_row_binary: "c \<in> set (reset_row rnd density n y) \<Longrightarrow> c = 0 \<or> c = 1"
  by (auto simp: reset_row_def)

text \<open>
  C8 (as amended). Initialisation validates neither the size nor the density and has no
  failure case: for every size and density the constructor returns a game of that size whose
  grid has \<open>max(size, 0)\<close> rows of \<open>max(size, 0)\<close> cells, each 0 or 1, the cell \<open>(x, y)\<close>
  being alive iff its random draw is below the density. With a size \<open>N \<ge> 1\<close> this is an
  \<open>N\<times>N\<close> grid; with a size \<open>\<le> 0\<close> the grid is empty.
\<close>

theorem constructor_never_fails:
  "game_size (constructor rnd sz density) = sz \<and>
   length (game_grid (constructor rnd sz density)) = nat sz \<and>
   (\<forall>row \<in> set (game_grid (constructor rnd sz density)).
      length row = nat sz \<and> (\<forall>c \<in> set row. c = 0 \<or> c = 1)) \<and>
   (\<forall>x < nat sz. \<forall>y < nat sz.
      game_grid (constructor rnd sz density) ! y ! x = (if rnd (y * nat sz + x) < density then 1 else 0))"
  by (auto simp: constructor_def reset_def length_reset_row reset_row_def)

theorem constructor_never_fails_witness:
  "game_size (constructor (\<lambda>k. 1 / 2) 2 (3 / 10)) = 2 \<and>
   length (game_grid (constructor (\<lambda>k. 1 / 2) 2 (3 / 10))) = 2 \<and>
   [0, 0] \<in> set (game_grid (constructor (\<lambda>k. 1 / 2) 2 (3 / 10))) \<and>
   game_grid (constructor (\<lambda>k. 1 / 2) 2 (3 / 10)) ! 1 ! 1 = 0"
  using constructor_never_fails[of "\<lambda>k. 1 / 2" 2 "3 / 10"]
  by (simp add: constructor_def reset_def reset_row_def numeral_2_eq_2)

text \<open>
  C8 as stated fails: with size 0 and density 2 (both invalid for the specification) the
  constructor returns a game with an empty grid, and with size 2 and density \<open>-1\<close> a game
  with a \<open>2\<times>2\<close> grid of dead cells; nothing is signalled.
\<close>

theorem constructor_invalid_config_counterexample:
  "constructor (\<lambda>k. 1 / 2) 0 2 = \<lparr>game_size = 0, initialDensity = 2, game_grid = []\<rparr> \<and>
   constructor (\<lambda>k. 1 / 2) 2 (- 1) =
     \<lparr>game_size = 2, initialDensity = - 1, game_grid = [[0, 0], [0, 0]]\<rparr>"
  by (simp add: constructor_def reset_def reset_row_def numeral_2_eq_2)

section \<open>The example visualizer\<close>

lemma dot_vis_constructed:
  "newVisualizer \<lparr>game_size = 1, initialDensity = 0, game_grid = [[1]]\<rparr> = Inr dot_vis"
  by code_simp

lemma dot_prepare_same:
  "prepareNextGeneration dot_vis [[1]] [[1]] = Inr (True, dot_vis\<lparr>pendingChanges := Some dot_same\<rparr>)"
  by (simp add: dot_vis_def dot_same_def prepareNextGeneration_def upto_size_def prepareCell_def
      js_index2_def noChanges_def)

lemma dot_animate_same:
  "animateNextGeneration (dot_vis\<lparr>pendingChanges := Some dot_same\<rparr>) =
     (True, dot_vis\<lparr>pendingChanges := Some dot_same, isAnimating := True\<rparr>,
      Some (Join 0 (AfterShrink dot_same)))"
  by (simp add: dot_vis_def dot_same_def animateNextGeneration_def)

section \<open>The transition: rejection while busy\<close>




section \<open>The transition: identical grids\<close>

lemma prepareCell_same:
  assumes "square_grid N grid" "x < N" "y < N"
    and "newBlobs ch = [] \<and> blobsToRemove ch = [] \<and> appearingCells ch = [] \<and> disappearingCells ch = []"
  shows "\<exists>ch'. prepareCell grid grid bm (int y) (int x) (ch, st) = Inr (ch', st) \<and>
           newBlobs ch' = [] \<and> blobsToRemove ch' = [] \<and> appearingCells ch' = [] \<and> disappearingCells ch' = []"
  using js_index2_square[OF assms(1), of "int y" "int x"] assms(2,3,4)
  by (simp add: prepareCell_def)


lemma prepare_same_loops:
  assumes "square_grid N grid"
  shows "\<exists>ch. for_fold (\<lambda>y. for_fold (prepareCell grid grid bm y) (upto_size (int N)))
                 (upto_size (int N)) (noChanges, st) = Inr (ch, st) \<and>
           newBlobs ch = [] \<and> blobsToRemove ch = [] \<and> appearingCells ch = [] \<and> disappearingCells ch = []"
proof -
  let ?P = "\<lambda>cs :: changes \<times> blob list. snd cs = st \<and> newBlobs (fst cs) = [] \<and> blobsToRemove (fst cs) = [] \<and>
                 appearingCells (fst cs) = [] \<and> disappearingCells (fst cs) = []"
  have row: "\<exists>s'. for_fold (prepareCell grid grid bm y) (upto_size (int N)) s = Inr s' \<and> ?P s'"
    if "y \<in> set (upto_size (int N))" "?P s" for y s
  proof (rule for_fold_inv[where P = ?P])
    fix x s1
    assume "x \<in> set (upto_size (int N))" "?P s1"
    then show "\<exists>s'. prepareCell grid grid bm y x s1 = Inr s' \<and> ?P s'"
      using prepareCell_same[OF assms, of "nat x" "nat y" "fst s1" bm "snd s1"] that(1)
      by (cases s1) (auto simp: upto_size_def)
  qed (use that in simp)
  have "\<exists>s'. for_fold (\<lambda>y. for_fold (prepareCell grid grid bm y) (upto_size (int N)))
                 (upto_size (int N)) (noChanges, st) = Inr s' \<and> ?P s'"
    by (rule for_fold_inv[where P = ?P]) (use row in \<open>auto simp: noChanges_def\<close>)
  then show ?thesis by auto
qed

section \<open>The transition: the regroup step\<close>

lemma duo_vis_constructed:
  "newVisualizer \<lparr>game_size = 2, initialDensity = 0, game_grid = [[1, 0], [0, 0]]\<rparr> = Inr duo_vis"
  by code_simp

lemma duo_prepare:
  "prepareNextGeneration duo_vis [[1, 0], [0, 0]] [[0, 0], [0, 1]] = Inr (True, duo_prepared)"
  by code_simp

text \<open>
  C4. In every generation transition of well-formed grids, prepared on a visualizer that is
  not animating, the first continuation of \<open>animateNextGeneration\<close> finds the blob objects
  as the preparation left them and, whatever the collections then hold, calls
  \<open>identifyOrganismGroups\<close> on collections from which every disappearing blob has been
  removed (it is not in the blobs array, and \<open>blobsMap\<close> does not map its key to it) and
  to which every appearing blob has been added (it is in the blobs array, and \<open>blobsMap\<close>
  maps its key to it). No appearing blob is visible after the preparation, after the
  acceptance, when \<open>identifyOrganismGroups\<close> starts or when it has run; every one is
  visible once the grow phase has started, which is the last step of that continuation.
\<close>

theorem regroup_sees_updated_collections:
  assumes sq: "square_grid N currentGrid" "square_grid N nextGrid"
    and sz: "game_size (game v) = int N" and idle: "\<not> isAnimating v"
    and alloc: "\<forall>p \<in> set (blobsMap v). snd p < length (store v)"
  shows "\<exists>ch v1 v2.
      prepareNextGeneration v currentGrid nextGrid = Inr (True, v1) \<and> pendingChanges v1 = Some ch \<and>
      animateNextGeneration v1 = (True, v2, Some (Join (length (blobsToRemove ch)) (AfterShrink ch))) \<and>
      (\<forall>b \<in> set (newBlobs ch). \<not> visible (store v1 ! b) \<and> \<not> visible (store v2 ! b)) \<and>
      (\<forall>w. store w = store v2 \<longrightarrow>
         afterShrink ch w = (startGrow ch (identifyOrganismGroups (updateCollections ch w)),
                             Join (length (newBlobs ch)) AfterGrow) \<and>
         (\<forall>b \<in> set (blobsToRemove ch).
            b \<notin> set (blobs (updateCollections ch w)) \<and>
            map_of (blobsMap (updateCollections ch w)) (blobKey (store w) b) \<noteq> Some b) \<and>
         (\<forall>b \<in> set (newBlobs ch).
            b \<in> set (blobs (updateCollections ch w)) \<and>
            map_of (blobsMap (updateCollections ch w)) (blobKey (store w) b) = Some b \<and>
            \<not> visible (store (updateCollections ch w) ! b) \<and>
            \<not> visible (store (identifyOrganismGroups (updateCollections ch w)) ! b) \<and>
            visible (store (startGrow ch (identifyOrganismGroups (updateCollections ch w))) ! b)))"
proof -
  let ?ps = "List.product (upto_size (int N)) (upto_size (int N))"
  from prepare_spec[OF sq sz idle] obtain ch st' where p:
    "prepareNextGeneration v currentGrid nextGrid = Inr (True, v\<lparr>store := st', pendingChanges := Some ch\<rparr>)"
    "prepInv (store v) (blobsMap v) ?ps ch st'"
    by blast
  let ?v1 = "v\<lparr>store := st', pendingChanges := Some ch\<rparr>"
  let ?v2 = "?v1\<lparr>isAnimating := True\<rparr>"
  note inv = p(2)[unfolded prepInv_def]
  have nb: "newBlobs ch = [length (store v)..<length st']" using inv by blast
  have invis: "\<forall>b \<in> set (newBlobs ch). \<not> visible (st' ! b)" using inv by blast
  have entries: "\<forall>b \<in> set (blobsToRemove ch). \<exists>k. map_of (blobsMap v) k = Some b" using inv by blast
  have keys: "distinct (map (blobKey st') (newBlobs ch))" using p(2) by (rule prepInv_keys)
  have old: "b < length (store v)" if "b \<in> set (blobsToRemove ch)" for b
  proof -
    from entries that obtain k where "map_of (blobsMap v) k = Some b" by blast
    then have "(k, b) \<in> set (blobsMap v)" by (rule map_of_SomeD)
    then show ?thesis using alloc by auto
  qed
  have fresh: "length (store v) \<le> b" "b < length st'" if "b \<in> set (newBlobs ch)" for b
    using that nb by simp_all
  have disj: "b \<notin> set (newBlobs ch)" if "b \<in> set (blobsToRemove ch)" for b
    using old[OF that] fresh(1)[of b] by auto
  have a: "animateNextGeneration ?v1 = (True, ?v2, Some (Join (length (blobsToRemove ch)) (AfterShrink ch)))"
    using idle by (simp add: animateNextGeneration_def)
  have vis12: "\<forall>b \<in> set (newBlobs ch). \<not> visible (store ?v1 ! b) \<and> \<not> visible (store ?v2 ! b)"
    using invis by simp
  have cont: "afterShrink ch w = (startGrow ch (identifyOrganismGroups (updateCollections ch w)),
                             Join (length (newBlobs ch)) AfterGrow) \<and>
         (\<forall>b \<in> set (blobsToRemove ch).
            b \<notin> set (blobs (updateCollections ch w)) \<and>
            map_of (blobsMap (updateCollections ch w)) (blobKey (store w) b) \<noteq> Some b) \<and>
         (\<forall>b \<in> set (newBlobs ch).
            b \<in> set (blobs (updateCollections ch w)) \<and>
            map_of (blobsMap (updateCollections ch w)) (blobKey (store w) b) = Some b \<and>
            \<not> visible (store (updateCollections ch w) ! b) \<and>
            \<not> visible (store (identifyOrganismGroups (updateCollections ch w)) ! b) \<and>
            visible (store (startGrow ch (identifyOrganismGroups (updateCollections ch w))) ! b))"
    if w: "store w = store ?v2" for w
  proof -
    let ?r = "foldl removeBlob w (blobsToRemove ch)"
    let ?u = "updateCollections ch w"
    have sw: "store w = st'" using w by simp
    have su: "store ?u = st'" "store ?r = st'" using sw by (simp_all add: updateCollections_def)
    have bu: "blobs ?u = filter (\<lambda>b. b \<notin> set (blobsToRemove ch)) (blobs w) @ newBlobs ch"
      by (simp add: updateCollections_def addBlobs_blobs removeBlobs_blobs)
    have 1: "afterShrink ch w = (startGrow ch (identifyOrganismGroups ?u), Join (length (newBlobs ch)) AfterGrow)"
      by (simp add: afterShrink_def)
    have 2: "b \<notin> set (blobs ?u) \<and> map_of (blobsMap ?u) (blobKey (store w) b) \<noteq> Some b"
      if b: "b \<in> set (blobsToRemove ch)" for b
    proof
      show "b \<notin> set (blobs ?u)" using b disj[OF b] by (simp add: bu)
      show "map_of (blobsMap ?u) (blobKey (store w) b) \<noteq> Some b"
      proof
        assume "map_of (blobsMap ?u) (blobKey (store w) b) = Some b"
        then have "b \<in> set (newBlobs ch) \<or> map_of (blobsMap ?r) (blobKey (store w) b) = Some b"
          unfolding updateCollections_def by (rule addBlobs_map_range)
        then have "map_of (blobsMap ?r) (blobKey (store w) b) = Some b" using disj[OF b] by simp
        then show False using b by (simp add: removeBlobs_map)
      qed
    qed
    have same: "sameBlobs st' (store (identifyOrganismGroups ?u))"
      using identify_sameBlobs[of ?u] su(1) by simp
    have 3: "b \<in> set (blobs ?u) \<and> map_of (blobsMap ?u) (blobKey (store w) b) = Some b \<and>
            \<not> visible (store ?u ! b) \<and> \<not> visible (store (identifyOrganismGroups ?u) ! b) \<and>
            visible (store (startGrow ch (identifyOrganismGroups ?u)) ! b)"
      if b: "b \<in> set (newBlobs ch)" for b
    proof -
      have k: "distinct (map (blobKey (store ?r)) (newBlobs ch))" using keys su(2) by simp
      have m: "map_of (blobsMap ?u) (blobKey (store w) b) = Some b"
        using addBlobs_map_new[OF k b] su(2) sw by (simp add: updateCollections_def)
      have i1: "\<not> visible (store ?u ! b)" using invis b su(1) by simp
      have i2: "\<not> visible (store (identifyOrganismGroups ?u) ! b)"
        using same invis b by (simp add: sameBlobs_def)
      have "length (store (identifyOrganismGroups ?u)) = length st'"
        using same by (simp add: sameBlobs_def)
      then have i3: "visible (store (startGrow ch (identifyOrganismGroups ?u)) ! b)"
        using showBlobs_store[of "identifyOrganismGroups ?u" "newBlobs ch" b] b fresh(2)[OF b]
        by (simp add: startGrow_def)
      show ?thesis using b m i1 i2 i3 by (simp add: bu)
    qed
    show ?thesis using 1 2 3 by blast
  qed
  show ?thesis
    apply (rule exI[of _ ch], rule exI[of _ ?v1], rule exI[of _ ?v2])
    using p(1) a vis12 cont by simp
qed

theorem regroup_sees_updated_collections_witness:
  "square_grid 2 [[1, 0], [0, 0]] \<and> square_grid 2 [[0, 0], [0, 1]] \<and> \<not> isAnimating duo_vis \<and>
   prepareNextGeneration duo_vis [[1, 0], [0, 0]] [[0, 0], [0, 1]] = Inr (True, duo_prepared) \<and>
   pendingChanges duo_prepared = Some duo_changes \<and>
   0 \<in> set (blobsToRemove duo_changes) \<and> 1 \<in> set (newBlobs duo_changes) \<and>
   0 \<notin> set (blobs (updateCollections duo_changes (duo_prepared\<lparr>isAnimating := True\<rparr>))) \<and>
   1 \<in> set (blobs (updateCollections duo_changes (duo_prepared\<lparr>isAnimating := True\<rparr>))) \<and>
   \<not> visible (store (identifyOrganismGroups
        (updateCollections duo_changes (duo_prepared\<lparr>isAnimating := True\<rparr>))) ! 1) \<and>
   visible (store (fst (afterShrink duo_changes (duo_prepared\<lparr>isAnimating := True\<rparr>))) ! 1)"
proof -
  have sq: "square_grid 2 [[1, 0], [0, 0]]" "square_grid 2 [[0, 0], [0, 1]]"
    by (simp_all add: square_grid_def)
  have v: "game_size (game duo_vis) = int 2" "\<not> isAnimating duo_vis"
    "\<forall>p \<in> set (blobsMap duo_vis). snd p < length (store duo_vis)"
    by (simp_all add: duo_vis_def)
  from regroup_sees_updated_collections[OF sq v] obtain ch v1 v2 where r:
    "prepareNextGeneration duo_vis [[1, 0], [0, 0]] [[0, 0], [0, 1]] = Inr (True, v1)"
    "pendingChanges v1 = Some ch"
    "animateNextGeneration v1 = (True, v2, Some (Join (length (blobsToRemove ch)) (AfterShrink ch)))"
    "\<forall>w. store w = store v2 \<longrightarrow>
         afterShrink ch w = (startGrow ch (identifyOrganismGroups (updateCollections ch w)),
                             Join (length (newBlobs ch)) AfterGrow) \<and>
         (\<forall>b \<in> set (blobsToRemove ch).
            b \<notin> set (blobs (updateCollections ch w)) \<and>
            map_of (blobsMap (updateCollections ch w)) (blobKey (store w) b) \<noteq> Some b) \<and>
         (\<forall>b \<in> set (newBlobs ch).
            b \<in> set (blobs (updateCollections ch w)) \<and>
            map_of (blobsMap (updateCollections ch w)) (blobKey (store w) b) = Some b \<and>
            \<not> visible (store (updateCollections ch w) ! b) \<and>
            \<not> visible (store (identifyOrganismGroups (updateCollections ch w)) ! b) \<and>
            visible (store (startGrow ch (identifyOrganismGroups (updateCollections ch w))) ! b))"
    by blast
  have v1: "v1 = duo_prepared" using r(1) duo_prepare by simp
  have pc: "pendingChanges duo_prepared = Some duo_changes" by (simp add: duo_prepared_def)
  then have ch: "ch = duo_changes" using r(2) v1 by simp
  have v2: "v2 = duo_prepared\<lparr>isAnimating := True\<rparr>"
    using r(3) unfolding v1 by (simp add: animateNextGeneration_def pc duo_prepared_def duo_vis_def)
  have mem: "0 \<in> set (blobsToRemove duo_changes)" "1 \<in> set (newBlobs duo_changes)"
    by (simp_all add: duo_changes_def)
  note w = r(4)[rule_format, of v2, OF refl, unfolded ch v2]
  have a: "afterShrink duo_changes (duo_prepared\<lparr>isAnimating := True\<rparr>)
      = (startGrow duo_changes (identifyOrganismGroups
           (updateCollections duo_changes (duo_prepared\<lparr>isAnimating := True\<rparr>))),
         Join (length (newBlobs duo_changes)) AfterGrow)"
    using w by blast
  have b0: "0 \<notin> set (blobs (updateCollections duo_changes (duo_prepared\<lparr>isAnimating := True\<rparr>)))"
    using w mem(1) by blast
  have b1: "1 \<in> set (blobs (updateCollections duo_changes (duo_prepared\<lparr>isAnimating := True\<rparr>)))"
    "\<not> visible (store (identifyOrganismGroups
        (updateCollections duo_changes (duo_prepared\<lparr>isAnimating := True\<rparr>))) ! 1)"
    "visible (store (startGrow duo_changes (identifyOrganismGroups
        (updateCollections duo_changes (duo_prepared\<lparr>isAnimating := True\<rparr>)))) ! 1)"
    using w mem(2) by blast+
  show ?thesis using sq v(2) duo_prepare pc mem b0 b1 by (simp add: a)
qed

section \<open>Clustering: the organisms partition the live cells\<close>

lemma unique_organism:
  assumes "distinct (members gs)" "b \<in> set (members gs)"
  shows "\<exists>!i. i < length gs \<and> b \<in> set (org_blobs (gs ! i))"
proof -
  have dc: "distinct (concat (map org_blobs gs))" using assms(1) by (simp only: members_def)
  have "\<exists>i < length gs. b \<in> set (org_blobs (gs ! i))" using assms(2) by (simp only: in_members)
  then obtain i where i: "i < length gs" "b \<in> set (org_blobs (gs ! i))" by blast
  show ?thesis
  proof (rule ex1I[of _ i])
    show "i < length gs \<and> b \<in> set (org_blobs (gs ! i))" using i by simp
  next
    fix j assume j: "j < length gs \<and> b \<in> set (org_blobs (gs ! j))"
    show "j = i"
      by (rule concat_index_unique[OF dc, of j i b]) (simp_all add: i j)
  qed
qed

lemma identify_partition:
  assumes ok: "bookkeeping_ok N v"
  shows "(let v' = identifyOrganismGroups v; gs = organismGroups v' in
           blobs v' = blobs v \<and> blobsMap v' = blobsMap v \<and> sameBlobs (store v) (store v') \<and>
           (\<forall>b \<in> set (blobs v). \<exists>!i. i < length gs \<and> b \<in> set (org_blobs (gs ! i))) \<and>
           distinct (members gs) \<and> set (members gs) = set (blobs v) \<and>
           (\<forall>g \<in> set gs. org_blobs g \<noteq> []) \<and>
           map org_id gs = map int [0..<length gs] \<and>
           subseq (map (\<lambda>g. hd (org_blobs g)) gs) (blobs v) \<and>
           (\<forall>i < length gs. \<forall>b \<in> set (org_blobs (gs ! i)). organismId (store v' ! b) = int i))"
proof -
  from identify_clusters[OF ok] obtain gs st where r:
    "identifyOrganismGroups v = v\<lparr>store := st, organismGroups := gs\<rparr>"
    "sameBlobs (store v) st"
    "set (members gs) = set (blobs v)" "distinct (members gs)"
    "map org_id gs = map int [0..<length gs]"
    "\<forall>g \<in> set gs. org_blobs g \<noteq> []"
    "subseq (map (\<lambda>g. hd (org_blobs g)) gs) (blobs v)"
    "\<forall>i < length gs. \<forall>b \<in> set (org_blobs (gs ! i)). organismId (st ! b) = int i"
    by blast
  have u: "\<forall>b \<in> set (blobs v). \<exists>!i. i < length gs \<and> b \<in> set (org_blobs (gs ! i))"
    using unique_organism[OF r(4)] r(3) by simp
  show ?thesis
    unfolding Let_def r(1)
    using r(2-8) u by simp
qed

lemma three_vis_constructed: "newVisualizer three_cells = Inr three_vis"
  by code_simp

lemma three_vis_clusters:
  "organismGroups (identifyOrganismGroups three_vis) = organismGroups three_vis \<and>
   map (\<lambda>g. map (blobCell (store three_vis)) (org_blobs g)) (organismGroups three_vis)
     = [[(0, 0), (0, 1)], [(5, 5)]]"
  by code_simp

lemma three_vis_ok: "bookkeeping_ok 10 three_vis"
  by code_simp

lemma wrap_vis_constructed: "newVisualizer wrap_cells = Inr wrap_vis"
  by code_simp

lemma wrap_vis_clusters:
  "organismGroups (identifyOrganismGroups wrap_vis) = organismGroups wrap_vis \<and>
   map (\<lambda>g. map (blobCell (store wrap_vis)) (org_blobs g)) (organismGroups wrap_vis)
     = [[(0, 0), (9, 9)]]"
  by code_simp

lemma wrap_vis_ok: "bookkeeping_ok 10 wrap_vis"
  by code_simp

lemma wrap_vis_adj: "torus_adjacent 10 (blobCell (store wrap_vis) 0) (blobCell (store wrap_vis) 1)"
  by (simp add: torus_adjacent_def blobCell_def wrap_vis_def)

lemma identify_adjacent:
  assumes ok: "bookkeeping_ok N v"
    and a: "a \<in> set (blobs v)" and b: "b \<in> set (blobs v)"
    and adj: "torus_adjacent N (blobCell (store v) a) (blobCell (store v) b)"
  shows "(\<exists>i < length (organismGroups (identifyOrganismGroups v)).
            a \<in> set (org_blobs (organismGroups (identifyOrganismGroups v) ! i)) \<and>
            b \<in> set (org_blobs (organismGroups (identifyOrganismGroups v) ! i))) \<and>
         organismId (store (identifyOrganismGroups v) ! a)
           = organismId (store (identifyOrganismGroups v) ! b)"
proof -
  from identify_clusters[OF ok] obtain gs st where r:
    "identifyOrganismGroups v = v\<lparr>store := st, organismGroups := gs\<rparr>"
    "set (members gs) = set (blobs v)" "distinct (members gs)"
    "\<forall>i < length gs. \<forall>b \<in> set (org_blobs (gs ! i)). organismId (st ! b) = int i"
    "\<forall>n \<le> length gs. closedUnder (int N) (blobsMap v) (store v) (set (members (take n gs)))
                                (blobKey (store v) ` set (members (take n gs)))"
    by blast
  from same_organism[OF ok a b adj r(2) r(3) r(5)]
  obtain i where i: "i < length gs" "a \<in> set (org_blobs (gs ! i))" "b \<in> set (org_blobs (gs ! i))"
    by blast
  have "organismId (st ! a) = int i" "organismId (st ! b) = int i"
    using r(4) i by blast+
  then show ?thesis unfolding r(1) using i by auto
qed

text \<open>
  C2. For every grid size \<open>N \<ge> 1\<close> and every set of live cells shown by the visualizer
  (one blob per live cell, registered in \<open>blobsMap\<close>), \<open>identifyOrganismGroups\<close> leaves the
  collections and the blobs' cells as they are and produces organisms such that every
  blob of a live cell is in exactly one organism's list, and there once; the organisms hold
  no other blob (none of a dead cell) and none is empty; the ids are \<open>0, 1, 2, \<dots>\<close> in the
  order of the list; the first blobs of the organisms follow the order of the blobs array
  (discovery order); and each blob's \<open>organismId\<close> is the id of its organism. In particular
  the live cells \<open>{(0,0), (0,1), (5,5)}\<close> on a \<open>10\<times>10\<close> grid give exactly two organisms,
  of cells \<open>(0,0), (0,1)\<close> and of cell \<open>(5,5)\<close>.
\<close>

theorem identifyOrganismGroups_partition:
  "(\<forall>N v. bookkeeping_ok N v \<longrightarrow>
      (let v' = identifyOrganismGroups v; gs = organismGroups v' in
         blobs v' = blobs v \<and> blobsMap v' = blobsMap v \<and> sameBlobs (store v) (store v') \<and>
         (\<forall>b \<in> set (blobs v). \<exists>!i. i < length gs \<and> b \<in> set (org_blobs (gs ! i))) \<and>
         distinct (members gs) \<and> set (members gs) = set (blobs v) \<and>
         (\<forall>g \<in> set gs. org_blobs g \<noteq> []) \<and>
         map org_id gs = map int [0..<length gs] \<and>
         subseq (map (\<lambda>g. hd (org_blobs g)) gs) (blobs v) \<and>
         (\<forall>i < length gs. \<forall>b \<in> set (org_blobs (gs ! i)). organismId (store v' ! b) = int i))) \<and>
   newVisualizer three_cells = Inr three_vis \<and>
   organismGroups (identifyOrganismGroups three_vis) = organismGroups three_vis \<and>
   map (\<lambda>g. map (blobCell (store three_vis)) (org_blobs g)) (organismGroups three_vis)
     = [[(0, 0), (0, 1)], [(5, 5)]]"
proof -
  have "\<forall>N v. bookkeeping_ok N v \<longrightarrow>
      (let v' = identifyOrganismGroups v; gs = organismGroups v' in
         blobs v' = blobs v \<and> blobsMap v' = blobsMap v \<and> sameBlobs (store v) (store v') \<and>
         (\<forall>b \<in> set (blobs v). \<exists>!i. i < length gs \<and> b \<in> set (org_blobs (gs ! i))) \<and>
         distinct (members gs) \<and> set (members gs) = set (blobs v) \<and>
         (\<forall>g \<in> set gs. org_blobs g \<noteq> []) \<and>
         map org_id gs = map int [0..<length gs] \<and>
         subseq (map (\<lambda>g. hd (org_blobs g)) gs) (blobs v) \<and>
         (\<forall>i < length gs. \<forall>b \<in> set (org_blobs (gs ! i)). organismId (store v' ! b) = int i))"
    by (intro allI impI) (rule identify_partition)
  then show ?thesis
    by (intro conjI three_vis_constructed three_vis_clusters[THEN conjunct1]
        three_vis_clusters[THEN conjunct2])
qed

theorem identifyOrganismGroups_partition_witness:
  "bookkeeping_ok 10 three_vis \<and>
   distinct (members (organismGroups (identifyOrganismGroups three_vis))) \<and>
   set (members (organismGroups (identifyOrganismGroups three_vis))) = set (blobs three_vis) \<and>
   map org_id (organismGroups (identifyOrganismGroups three_vis))
     = map int [0..<length (organismGroups (identifyOrganismGroups three_vis))]"
  using identifyOrganismGroups_partition[THEN conjunct1, rule_format, OF three_vis_ok, unfolded Let_def]
    three_vis_ok
  by simp

section \<open>Clustering: toroidal adjacency\<close>

text \<open>
  C3. For every grid size \<open>N \<ge> 1\<close>, two live cells shown by the visualizer whose
  coordinates differ by at most 1 modulo \<open>N\<close> in each axis, and which are not the same cell,
  belong to the same organism after \<open>identifyOrganismGroups\<close> (and get the same
  \<open>organismId\<close>), wherever on the grid they lie: a pair across an edge is treated as any
  other. In particular the live cells \<open>{(0,0), (9,9)}\<close> on a \<open>10\<times>10\<close> grid give a single
  organism that holds both.
\<close>

theorem identifyOrganismGroups_toroidal:
  "(\<forall>N v a b. bookkeeping_ok N v \<longrightarrow> a \<in> set (blobs v) \<longrightarrow> b \<in> set (blobs v) \<longrightarrow>
      torus_adjacent N (blobCell (store v) a) (blobCell (store v) b) \<longrightarrow>
      (\<exists>i < length (organismGroups (identifyOrganismGroups v)).
          a \<in> set (org_blobs (organismGroups (identifyOrganismGroups v) ! i)) \<and>
          b \<in> set (org_blobs (organismGroups (identifyOrganismGroups v) ! i))) \<and>
      organismId (store (identifyOrganismGroups v) ! a)
        = organismId (store (identifyOrganismGroups v) ! b)) \<and>
   newVisualizer wrap_cells = Inr wrap_vis \<and>
   organismGroups (identifyOrganismGroups wrap_vis) = organismGroups wrap_vis \<and>
   map (\<lambda>g. map (blobCell (store wrap_vis)) (org_blobs g)) (organismGroups wrap_vis)
     = [[(0, 0), (9, 9)]]"
proof -
  have "\<forall>N v a b. bookkeeping_ok N v \<longrightarrow> a \<in> set (blobs v) \<longrightarrow> b \<in> set (blobs v) \<longrightarrow>
      torus_adjacent N (blobCell (store v) a) (blobCell (store v) b) \<longrightarrow>
      (\<exists>i < length (organismGroups (identifyOrganismGroups v)).
          a \<in> set (org_blobs (organismGroups (identifyOrganismGroups v) ! i)) \<and>
          b \<in> set (org_blobs (organismGroups (identifyOrganismGroups v) ! i))) \<and>
      organismId (store (identifyOrganismGroups v) ! a)
        = organismId (store (identifyOrganismGroups v) ! b)"
    by (intro allI impI) (rule identify_adjacent)
  then show ?thesis
    by (intro conjI wrap_vis_constructed wrap_vis_clusters[THEN conjunct1]
        wrap_vis_clusters[THEN conjunct2])
qed

theorem identifyOrganismGroups_toroidal_witness:
  "bookkeeping_ok 10 wrap_vis \<and> 0 \<in> set (blobs wrap_vis) \<and> 1 \<in> set (blobs wrap_vis) \<and>
   torus_adjacent 10 (blobCell (store wrap_vis) 0) (blobCell (store wrap_vis) 1) \<and>
   (\<exists>i < length (organismGroups (identifyOrganismGroups wrap_vis)).
      0 \<in> set (org_blobs (organismGroups (identifyOrganismGroups wrap_vis) ! i)) \<and>
      1 \<in> set (org_blobs (organismGroups (identifyOrganismGroups wrap_vis) ! i)))"
proof -
  have m: "0 \<in> set (blobs wrap_vis)" "1 \<in> set (blobs wrap_vis)" by (simp_all add: wrap_vis_def)
  from identifyOrganismGroups_toroidal[THEN conjunct1, rule_format, OF wrap_vis_ok m wrap_vis_adj]
  show ?thesis using wrap_vis_ok m wrap_vis_adj by simp
qed

section \<open>The transition: identical grids, from an idle visualizer\<close>

text \<open>
  C6 (as amended). Take a visualizer that is not animating, as \<open>createBlobs\<close> returned it
  (the constructor, \<open>resetBlobs\<close>) or as the two continuations of a transition left it. If
  \<open>nextGrid\<close> is identical to \<open>currentGrid\<close> (an \<open>N\<times>N\<close> grid),
  \<open>prepareNextGeneration\<close> followed by \<open>animateNextGeneration\<close> is accepted with no blob to
  shrink and none to grow: both joins await zero completions. The regroup continuation is
  registered and run all the same (the live-cell set has not changed): it recomputes the
  organisms from the unchanged collections, and finds the organisms the visualizer had. The
  visualizer is animating from the acceptance until the second continuation has run; it is
  then idle again, with the collections and the organisms it had before.
\<close>

theorem unchanged_grid_transition:
  assumes "square_grid N grid" "game_size (game v) = int N" "\<not> isAnimating v"
    and "createBlobs u = Inr v \<or> v = afterGrow (fst (afterShrink ch0 u))"
  shows "\<exists>ch v1 v2 v3.
           prepareNextGeneration v grid grid = Inr (True, v1) \<and>
           v1 = v\<lparr>pendingChanges := Some ch\<rparr> \<and>
           newBlobs ch = [] \<and> blobsToRemove ch = [] \<and>
           animateNextGeneration v1 = (True, v2, Some (Join 0 (AfterShrink ch))) \<and>
           isAnimating v2 \<and>
           afterShrink ch v2 = (v3, Join 0 AfterGrow) \<and>
           v3 = identifyOrganismGroups v2 \<and>
           \<not> isAnimating (afterGrow v3) \<and> pendingChanges (afterGrow v3) = None \<and>
           blobs (afterGrow v3) = blobs v \<and> blobsMap (afterGrow v3) = blobsMap v \<and>
           organismGroups (afterGrow v3) = organismGroups v"
proof -
  have cur: "organismGroups (identifyOrganismGroups v) = organismGroups v"
    using assms(4) createBlobs_current[of u v] transition_current[of ch0 u] by blast
  from prepare_same_loops[OF assms(1), of "blobsMap v" "store v"] obtain ch where
    ch: "for_fold (\<lambda>y. for_fold (prepareCell grid grid (blobsMap v) y) (upto_size (int N)))
           (upto_size (int N)) (noChanges, store v) = Inr (ch, store v)"
      "newBlobs ch = []" "blobsToRemove ch = []"
    by auto
  let ?v1 = "v\<lparr>pendingChanges := Some ch\<rparr>"
  let ?v2 = "?v1\<lparr>isAnimating := True\<rparr>"
  have 1: "prepareNextGeneration v grid grid = Inr (True, ?v1)"
    using ch(1) assms(2,3) by (simp add: prepareNextGeneration_def)
  have 2: "animateNextGeneration ?v1 = (True, ?v2, Some (Join 0 (AfterShrink ch)))"
    using assms(3) ch(3) by (simp add: animateNextGeneration_def)
  have 3: "afterShrink ch ?v2 = (identifyOrganismGroups ?v2, Join 0 AfterGrow)"
    using ch(2,3) by (simp add: afterShrink_def startGrow_def updateCollections_def)
  have 4: "organismGroups (identifyOrganismGroups ?v2) = organismGroups (identifyOrganismGroups v)"
    by (simp add: identifyOrganismGroups_def split: prod.splits)
  have 5: "\<not> isAnimating (afterGrow (identifyOrganismGroups ?v2))"
    "pendingChanges (afterGrow (identifyOrganismGroups ?v2)) = None"
    "blobs (afterGrow (identifyOrganismGroups ?v2)) = blobs v"
    "blobsMap (afterGrow (identifyOrganismGroups ?v2)) = blobsMap v"
    "organismGroups (afterGrow (identifyOrganismGroups ?v2)) = organismGroups v"
    using 4 cur by (simp_all add: afterGrow_def)
  show ?thesis using 1 2 3 5 ch(2,3) by simp
qed

theorem unchanged_grid_transition_witness:
  "square_grid 10 (game_grid three_cells) \<and> game_size (game three_vis) = int 10 \<and>
   \<not> isAnimating three_vis \<and>
   createBlobs \<lparr>game = three_cells, store = [], blobs = [], blobsMap = [], organismGroups = [],
                 pendingChanges = None, isAnimating = False\<rparr> = Inr three_vis \<and>
   map org_blobs (organismGroups three_vis) = [[0, 1], [2]] \<and>
   (\<exists>ch v1 v2 v3.
      prepareNextGeneration three_vis (game_grid three_cells) (game_grid three_cells) = Inr (True, v1) \<and>
      animateNextGeneration v1 = (True, v2, Some (Join 0 (AfterShrink ch))) \<and>
      afterShrink ch v2 = (v3, Join 0 AfterGrow) \<and>
      v3 = identifyOrganismGroups v2 \<and>
      \<not> isAnimating (afterGrow v3) \<and>
      organismGroups (afterGrow v3) = organismGroups three_vis) \<and>
   square_grid 2 [[0, 0], [0, 1]] \<and>
   game_size (game (afterGrow (fst (afterShrink duo_changes (duo_prepared\<lparr>isAnimating := True\<rparr>))))) = int 2 \<and>
   (\<exists>ch v1 v2 v3.
      prepareNextGeneration (afterGrow (fst (afterShrink duo_changes (duo_prepared\<lparr>isAnimating := True\<rparr>))))
        [[0, 0], [0, 1]] [[0, 0], [0, 1]] = Inr (True, v1) \<and>
      animateNextGeneration v1 = (True, v2, Some (Join 0 (AfterShrink ch))) \<and>
      afterShrink ch v2 = (v3, Join 0 AfterGrow) \<and>
      organismGroups (afterGrow v3)
        = organismGroups (afterGrow (fst (afterShrink duo_changes (duo_prepared\<lparr>isAnimating := True\<rparr>)))))"
proof -
  have 1: "square_grid 10 (game_grid three_cells)" by code_simp
  have 2: "game_size (game three_vis) = int 10" "\<not> isAnimating three_vis"
    by (simp_all add: three_vis_def three_cells_def)
  have 3: "createBlobs \<lparr>game = three_cells, store = [], blobs = [], blobsMap = [], organismGroups = [],
                 pendingChanges = None, isAnimating = False\<rparr> = Inr three_vis"
    using three_vis_constructed by (simp add: newVisualizer_def)
  have 4: "map org_blobs (organismGroups three_vis) = [[0, 1], [2]]" by (simp add: three_vis_def)
  let ?w = "afterGrow (fst (afterShrink duo_changes (duo_prepared\<lparr>isAnimating := True\<rparr>)))"
  have 5: "square_grid 2 [[0, 0], [0, 1]]" by (simp add: square_grid_def)
  have 6: "game_size (game ?w) = int 2" "\<not> isAnimating ?w"
    by (simp_all add: afterGrow_def duo_prepared_def duo_vis_def)
  note a = unchanged_grid_transition[OF 1 2 disjI1[OF 3]]
  note b = unchanged_grid_transition[OF 5 6 disjI2[OF refl]]
  have c: "\<exists>ch v1 v2 v3.
      prepareNextGeneration three_vis (game_grid three_cells) (game_grid three_cells) = Inr (True, v1) \<and>
      animateNextGeneration v1 = (True, v2, Some (Join 0 (AfterShrink ch))) \<and>
      afterShrink ch v2 = (v3, Join 0 AfterGrow) \<and>
      v3 = identifyOrganismGroups v2 \<and>
      \<not> isAnimating (afterGrow v3) \<and>
      organismGroups (afterGrow v3) = organismGroups three_vis"
    using a by blast
  have d: "\<exists>ch v1 v2 v3.
      prepareNextGeneration ?w [[0, 0], [0, 1]] [[0, 0], [0, 1]] = Inr (True, v1) \<and>
      animateNextGeneration v1 = (True, v2, Some (Join 0 (AfterShrink ch))) \<and>
      afterShrink ch v2 = (v3, Join 0 AfterGrow) \<and>
      organismGroups (afterGrow v3) = organismGroups ?w"
    using b by blast
  show ?thesis by (intro conjI 1 2 3 4 5 6(1) c d)
qed

text \<open>
  C6 as stated fails: with identical grids the step is no no-op that is idle at once. After
  \<open>prepareNextGeneration\<close> and \<open>animateNextGeneration\<close> the visualizer is animating, the
  regroup continuation is registered although no cell changed, and running it calls
  \<open>identifyOrganismGroups\<close>.
\<close>

theorem unchanged_grid_not_noop_counterexample:
  "prepareNextGeneration dot_vis [[1]] [[1]] = Inr (True, dot_vis\<lparr>pendingChanges := Some dot_same\<rparr>) \<and>
   animateNextGeneration (dot_vis\<lparr>pendingChanges := Some dot_same\<rparr>) =
     (True, dot_vis\<lparr>pendingChanges := Some dot_same, isAnimating := True\<rparr>,
      Some (Join 0 (AfterShrink dot_same))) \<and>
   isAnimating (dot_vis\<lparr>pendingChanges := Some dot_same, isAnimating := True\<rparr>) \<and>
   runContinuation (AfterShrink dot_same) (dot_vis\<lparr>pendingChanges := Some dot_same, isAnimating := True\<rparr>) =
     (identifyOrganismGroups (dot_vis\<lparr>pendingChanges := Some dot_same, isAnimating := True\<rparr>),
      Some (Join 0 AfterGrow))"
  using dot_prepare_same dot_animate_same
  by (simp add: afterShrink_def startGrow_def updateCollections_def dot_same_def)

section \<open>The two collections of the visualizer\<close>

text \<open>
  C10. After construction the blobs array and \<open>blobsMap\<close> agree, but not after the regroup
  step of every transition. In the run \<open>interruptedRun\<close> the second \<open>step\<close> is rejected by
  \<open>prepareNextGeneration\<close> (the visualizer is animating) and still advances the game's grid,
  so the third \<open>step\<close> prepares its changes from a grid that the collections do not
  show: two blobs are created on cells that hold a blob already. When that transition has
  completed and the visualizer is idle, blob 3 is in the blobs array while \<open>blobsMap\<close>
  maps its key \<open>"2,1"\<close> to blob 5 (and likewise blob 4 and blob 6 for \<open>"2,3"\<close>), and the
  blobs 3 and 4 belong to no organism.
\<close>

theorem interruptedRun_collections_disagree:
  "(case interruptedRun of
      Inl e \<Rightarrow> False
    | Inr v \<Rightarrow>
        \<not> isAnimating v \<and> pendingChanges v = None \<and>
        blobs v = [1, 3, 4, 5, 6] \<and>
        blobsMap v = [(''2,2'', 1), (''2,1'', 5), (''2,3'', 6)] \<and>
        map (blobKey (store v)) (blobs v) = [''2,2'', ''2,1'', ''2,3'', ''2,1'', ''2,3''] \<and>
        3 \<in> set (blobs v) \<and> map_of (blobsMap v) (blobKey (store v) 3) = Some 5 \<and>
        map org_blobs (organismGroups v) = [[1, 5, 6]])"
  by code_simp

end
